theory Spec2Isabelle
  imports Complex_Main "HOL-Library.AList" "HOL-Library.Product_Lexorder" "HOL-Library.Multiset"
begin

section \<open>Distance values\<close>

text \<open>
  The source stores keys' values, bounds and distance estimates in C++ \<^verbatim>\<open>double\<close>s and
  uses \<^verbatim>\<open>std::numeric_limits<double>::infinity()\<close> (\<^verbatim>\<open>INF\<close>) for "no value".  The
  embedding idealises a \<^verbatim>\<open>double\<close> as either a finite real number or plus infinity:
  comparisons are those of the extended real line and addition is exact.  NaN, minus
  infinity and rounding are outside the model.  Edge weights are finite, so they are
  plain reals.
\<close>

datatype dist = Fin real | PInf

instantiation dist :: linorder
begin

fun less_eq_dist :: "dist \<Rightarrow> dist \<Rightarrow> bool" where
  "less_eq_dist x PInf = True"
| "less_eq_dist PInf (Fin b) = False"
| "less_eq_dist (Fin a) (Fin b) = (a \<le> b)"

definition less_dist :: "dist \<Rightarrow> dist \<Rightarrow> bool" where
  "less_dist x y = (x \<le> y \<and> \<not> y \<le> x)"

instance
proof
  fix x y z :: dist
  show "(x < y) = (x \<le> y \<and> \<not> y \<le> x)" by (simp add: less_dist_def)
  show "x \<le> x" by (cases x) auto
  show "x \<le> y \<Longrightarrow> y \<le> z \<Longrightarrow> x \<le> z" by (cases x; cases y; cases z) auto
  show "x \<le> y \<Longrightarrow> y \<le> x \<Longrightarrow> x = y" by (cases x; cases y) auto
  show "x \<le> y \<or> y \<le> x" by (cases x; cases y) auto
qed

end

text \<open>\<^verbatim>\<open>d + w\<close> for a distance \<open>d\<close> and a finite weight \<open>w\<close>.\<close>

fun addw :: "dist \<Rightarrow> real \<Rightarrow> dist" where
  "addw (Fin a) w = Fin (a + w)"
| "addw PInf w = PInf"

section \<open>The block data structure (\<^verbatim>\<open>block_data_structure.hpp\<close>)\<close>

text \<open>
  \<^verbatim>\<open>KeyValue\<close> is \<^verbatim>\<open>std::pair<int, double>\<close>; keys are vertex numbers and are modelled as
  natural numbers.  A \<^verbatim>\<open>Block\<close> is a list of elements with an upper bound.  The class
  fields \<^verbatim>\<open>M\<close>, \<^verbatim>\<open>B\<close>, \<^verbatim>\<open>N\<close> are called \<open>ds_M\<close>, \<open>ds_B\<close>, \<open>ds_N\<close> here.  The
  \<^verbatim>\<open>std::map<int, double> key_values\<close> is an association list read with \<open>map_of\<close>
  (the source never iterates over it), \<^verbatim>\<open>std::set<double> d1_upper_bounds\<close> is a set.
\<close>

type_synonym KeyValue = "nat \<times> dist"

record Block =
  elements :: "KeyValue list"
  upper_bound :: dist

record BlockDataStructure =
  ds_M :: nat
  ds_B :: dist
  ds_N :: int
  D0 :: "Block list"
  D1 :: "Block list"
  key_values :: "(nat \<times> dist) list"
  d1_upper_bounds :: "dist set"

text \<open>
  Undefined behaviour of the C++ is an error value of the model: an integer division by
  zero, \<^verbatim>\<open>std::prev(D1.end())\<close> on an empty list, and a vector read at index \<open>-1\<close>.
\<close>

datatype error = DivisionByZero | EmptyBlockList | IndexOutOfRange

text \<open>The default constructor: \<^verbatim>\<open>M(1), B(infinity), N(0)\<close>, all containers empty.\<close>

definition BlockDataStructure_new :: BlockDataStructure where
  "BlockDataStructure_new =
     \<lparr>ds_M = 1, ds_B = PInf, ds_N = 0, D0 = [], D1 = [], key_values = [], d1_upper_bounds = {}\<rparr>"

text \<open>\<^verbatim>\<open>initialize(m, b, max_n)\<close> overwrites every field.\<close>

definition initialize :: "int \<Rightarrow> dist \<Rightarrow> int \<Rightarrow> BlockDataStructure" where
  "initialize m b max_n =
     \<lparr>ds_M = nat (max 1 m), ds_B = b, ds_N = (if max_n > 0 then max_n else m * 10),
      D0 = [], D1 = [\<lparr>elements = [], upper_bound = b\<rparr>], key_values = [],
      d1_upper_bounds = {b}\<rparr>"

definition empty_ds :: "BlockDataStructure \<Rightarrow> bool" where
  "empty_ds st = (list_all (\<lambda>b. elements b = []) (D0 st) \<and> list_all (\<lambda>b. elements b = []) (D1 st))"

definition size_ds :: "BlockDataStructure \<Rightarrow> nat" where
  "size_ds st = length (key_values st)"

definition getValue :: "BlockDataStructure \<Rightarrow> nat \<Rightarrow> dist" where
  "getValue st key = (case map_of (key_values st) key of Some v \<Rightarrow> v | None \<Rightarrow> PInf)"

text \<open>
  \<^verbatim>\<open>removeKey\<close>: erase the key from the index, then erase the first element with that key
  from the first block of \<open>D0\<close> that has one, else from the first such block of \<open>D1\<close>.
\<close>

fun erase_elem :: "nat \<Rightarrow> KeyValue list \<Rightarrow> KeyValue list option" where
  "erase_elem key [] = None"
| "erase_elem key (e # es) =
     (if fst e = key then Some es else map_option ((#) e) (erase_elem key es))"

fun erase_blocks :: "nat \<Rightarrow> Block list \<Rightarrow> Block list option" where
  "erase_blocks key [] = None"
| "erase_blocks key (b # bs) =
     (case erase_elem key (elements b) of
        Some es \<Rightarrow> Some (b\<lparr>elements := es\<rparr> # bs)
      | None \<Rightarrow> map_option ((#) b) (erase_blocks key bs))"

definition removeKey :: "nat \<Rightarrow> BlockDataStructure \<Rightarrow> BlockDataStructure" where
  "removeKey key st =
     (case map_of (key_values st) key of
        None \<Rightarrow> st
      | Some v \<Rightarrow>
          (let st1 = st\<lparr>key_values := AList.delete key (key_values st)\<rparr> in
           case erase_blocks key (D0 st1) of
             Some d0 \<Rightarrow> st1\<lparr>D0 := d0\<rparr>
           | None \<Rightarrow>
               (case erase_blocks key (D1 st1) of
                  Some d1 \<Rightarrow> st1\<lparr>D1 := d1\<rparr>
                | None \<Rightarrow> st1)))"

text \<open>
  \<^verbatim>\<open>findBlockForValue\<close> returns the position of the first block of \<open>D1\<close> whose upper bound
  is at least the value, else the last block; \<^verbatim>\<open>std::prev(D1.end())\<close> is undefined when
  \<open>D1\<close> is empty.
\<close>

fun first_ge :: "dist \<Rightarrow> Block list \<Rightarrow> nat option" where
  "first_ge v [] = None"
| "first_ge v (b # bs) =
     (if upper_bound b \<ge> v then Some 0 else map_option Suc (first_ge v bs))"

definition findBlockForValue :: "dist \<Rightarrow> Block list \<Rightarrow> error + nat" where
  "findBlockForValue v d1 =
     (case first_ge v d1 of
        Some i \<Rightarrow> Inr i
      | None \<Rightarrow> if d1 = [] then Inl EmptyBlockList else Inr (length d1 - 1))"

text \<open>
  \<^verbatim>\<open>std::sort\<close> with the comparator \<^verbatim>\<open>a.second < b.second\<close>.  The standard leaves the order
  of elements with equal values open; the model sorts stably.
\<close>

definition sort_by_value :: "KeyValue list \<Rightarrow> KeyValue list" where
  "sort_by_value xs = sort_key snd xs"

text \<open>
  \<^verbatim>\<open>splitBlock\<close> on the block at position \<open>i\<close> of \<open>D1\<close>.  \<^verbatim>\<open>elems[mid - 1]\<close> is read
  unchecked, which is out of range when \<open>mid = 0\<close>.
\<close>

definition splitBlock :: "nat \<Rightarrow> BlockDataStructure \<Rightarrow> error + BlockDataStructure" where
  "splitBlock i st =
     (let block = D1 st ! i in
      if length (elements block) \<le> ds_M st then Inr st
      else
        (let elems = sort_by_value (elements block);
             mid = length elems div 2
         in if mid = 0 then Inl IndexOutOfRange
            else
              (let block1 = \<lparr>elements = take mid elems, upper_bound = snd (elems ! (mid - 1))\<rparr>;
                   block2 = \<lparr>elements = drop mid elems, upper_bound = upper_bound block\<rparr>
               in Inr (st\<lparr>D1 := take i (D1 st) @ [block1, block2] @ drop (Suc i) (D1 st),
                          d1_upper_bounds :=
                            insert (upper_bound block2)
                              (insert (upper_bound block1)
                                 (d1_upper_bounds st - {upper_bound block}))\<rparr>))))"

text \<open>The part of \<^verbatim>\<open>insert\<close> after the presence test.\<close>

definition insert_fresh :: "nat \<Rightarrow> dist \<Rightarrow> BlockDataStructure \<Rightarrow> error + BlockDataStructure" where
  "insert_fresh key v st =
     (let st1 = st\<lparr>key_values := AList.update key v (key_values st)\<rparr> in
      case findBlockForValue v (D1 st1) of
        Inl e \<Rightarrow> Inl e
      | Inr i \<Rightarrow>
          (let b = D1 st1 ! i;
               b' = b\<lparr>elements := elements b @ [(key, v)]\<rparr>;
               st2 = st1\<lparr>D1 := (D1 st1)[i := b']\<rparr>
           in if length (elements b') > ds_M st2 then splitBlock i st2 else Inr st2))"

definition insert_ds :: "nat \<Rightarrow> dist \<Rightarrow> BlockDataStructure \<Rightarrow> error + BlockDataStructure" where
  "insert_ds key v st =
     (case map_of (key_values st) key of
        Some old \<Rightarrow> if v < old then insert_fresh key v (removeKey key st) else Inr st
      | None \<Rightarrow> insert_fresh key v st)"

text \<open>
  \<^verbatim>\<open>batchPrepend\<close>.  \<open>unique_items\<close> is the \<^verbatim>\<open>std::map\<close> built from the items (smallest
  value per key), visited in key order; \<open>check_existing\<close> is the body of the second loop.
\<close>

definition unique_step :: "KeyValue \<Rightarrow> (nat \<times> dist) list \<Rightarrow> (nat \<times> dist) list" where
  "unique_step kv u =
     (case map_of u (fst kv) of
        None \<Rightarrow> AList.update (fst kv) (snd kv) u
      | Some old \<Rightarrow> if snd kv < old then AList.update (fst kv) (snd kv) u else u)"

definition unique_items :: "KeyValue list \<Rightarrow> KeyValue list" where
  "unique_items items = sort_key fst (fold unique_step items [])"

definition check_existing ::
  "KeyValue \<Rightarrow> KeyValue list \<times> BlockDataStructure \<Rightarrow> KeyValue list \<times> BlockDataStructure" where
  "check_existing kv acc =
     (let to_add = fst acc; st = snd acc in
      case map_of (key_values st) (fst kv) of
        None \<Rightarrow>
          (to_add @ [kv], st\<lparr>key_values := AList.update (fst kv) (snd kv) (key_values st)\<rparr>)
      | Some old \<Rightarrow>
          if snd kv < old then
            (let st1 = removeKey (fst kv) st in
             (to_add @ [kv], st1\<lparr>key_values := AList.update (fst kv) (snd kv) (key_values st1)\<rparr>))
          else (to_add, st))"

definition mk_block :: "KeyValue list \<Rightarrow> Block" where
  "mk_block es = \<lparr>elements = es, upper_bound = (if es = [] then PInf else snd (last es))\<rparr>"

text \<open>
  The loop \<^verbatim>\<open>for (i = 0; i < L; i += per_block)\<close> cutting the sorted items into blocks;
  it is only entered with \<open>per_block > 0\<close>.
\<close>

function chunks :: "nat \<Rightarrow> KeyValue list \<Rightarrow> Block list" where
  "chunks per_block xs =
     (if per_block = 0 \<or> xs = [] then []
      else mk_block (take per_block xs) # chunks per_block (drop per_block xs))"
  by pat_completeness auto
termination
  by (relation "measure (\<lambda>(p, xs). length xs)") auto

declare chunks.simps [simp del]

definition batchPrepend :: "KeyValue list \<Rightarrow> BlockDataStructure \<Rightarrow> error + BlockDataStructure" where
  "batchPrepend items st =
     (if items = [] then Inr st
      else
        (let r = fold check_existing (unique_items items) ([], st);
             to_add = fst r; st1 = snd r
         in if to_add = [] then Inr st1
            else
              (let sorted = sort_by_value to_add; L = length sorted in
               if L \<le> ds_M st1 then Inr (st1\<lparr>D0 := mk_block sorted # D0 st1\<rparr>)
               else if ds_M st1 div 2 = 0 then Inl DivisionByZero
               else
                 (let num_blocks = (L + ds_M st1 div 2 - 1) div (ds_M st1 div 2) in
                  if num_blocks = 0 then Inl DivisionByZero
                  else
                    (let per_block = (L + num_blocks - 1) div num_blocks in
                     Inr (st1\<lparr>D0 := chunks per_block sorted @ D0 st1\<rparr>))))))"

text \<open>
  \<^verbatim>\<open>pull\<close>.  \<open>collect\<close> is one of the two gathering loops: it takes whole blocks from the
  front until at least \<open>M\<close> elements have been seen.
\<close>

fun collect :: "nat \<Rightarrow> nat \<Rightarrow> Block list \<Rightarrow> KeyValue list" where
  "collect m cnt [] = []"
| "collect m cnt (b # bs) =
     elements b @
       (if cnt + length (elements b) \<ge> m then [] else collect m (cnt + length (elements b)) bs)"

definition all_elements :: "BlockDataStructure \<Rightarrow> KeyValue list" where
  "all_elements st = concat (map elements (D0 st)) @ concat (map elements (D1 st))"

definition pull :: "BlockDataStructure \<Rightarrow> (nat list \<times> dist) \<times> BlockDataStructure" where
  "pull st =
     (let candidates = collect (ds_M st) 0 (D0 st) @ collect (ds_M st) 0 (D1 st) in
      if candidates = [] then (([], ds_B st), st)
      else
        (let sorted = sort_by_value candidates;
             tk = min (ds_M st) (length sorted);
             result = map fst (take tk sorted);
             st' = fold removeKey result st;
             sep_bound =
               (if length sorted > tk then snd (sorted ! tk)
                else if empty_ds st' then ds_B st'
                else fold (\<lambda>e acc. min acc (snd e)) (all_elements st') (ds_B st'))
         in ((result, sep_bound), st')))"

section \<open>The solver (\<^verbatim>\<open>new_sssp.hpp\<close>)\<close>

text \<open>
  \<^verbatim>\<open>SimpleGraph\<close> has the vertex count, the edge count and the adjacency lists; vertices are
  natural numbers.  The class \<^verbatim>\<open>NewSSSP\<close> is split into its constant part (the graph and
  the parameters \<^verbatim>\<open>k\<close>, \<^verbatim>\<open>t\<close>, \<^verbatim>\<open>max_level\<close>, here \<open>sp_k\<close>, \<open>sp_t\<close>, \<open>max_level\<close>) and
  its mutable arrays.  The constructor computes the parameters from \<^verbatim>\<open>n\<close> in floating
  point (\<^verbatim>\<open>log2\<close>, \<^verbatim>\<open>pow\<close>, \<^verbatim>\<open>floor\<close>, \<^verbatim>\<open>ceil\<close>); the model takes them as given.  A
  predecessor is \<open>None\<close> where the source stores \<open>-1\<close>.  A \<^verbatim>\<open>std::set<int>\<close> is a strictly
  increasing list, visited front to back.  Vectors are lists read with \<open>!\<close>, as the source
  reads them unchecked; the graphs of interest have every arc target below \<open>n\<close>.
\<close>

record SimpleGraph =
  g_n :: nat
  g_m :: nat
  g_adj :: "(nat \<times> real) list list"

record NewSSSP =
  graph :: SimpleGraph
  sp_k :: nat
  sp_t :: nat
  max_level :: nat

record sssp_state =
  d_hat :: "dist list"
  pred :: "nat option list"
  complete :: "bool list"
  relaxation_count :: nat

record Result =
  distances :: "dist list"
  predecessors :: "nat option list"
  source :: nat

definition set_insert :: "nat \<Rightarrow> nat list \<Rightarrow> nat list" where
  "set_insert x xs = (if x \<in> set xs then xs else insort x xs)"

definition set_of_list :: "nat list \<Rightarrow> nat list" where
  "set_of_list xs = fold set_insert xs []"

subsection \<open>\<^verbatim>\<open>findPivots\<close>\<close>

text \<open>The body of the innermost loop: one arc \<open>u \<rightarrow> v\<close> of weight \<open>w\<close>.\<close>

definition fp_relax ::
  "dist \<Rightarrow> nat \<Rightarrow> nat \<times> real \<Rightarrow> sssp_state \<times> nat list \<Rightarrow> sssp_state \<times> nat list" where
  "fp_relax B u e acc =
     (let v = fst e; w = snd e; Wi = snd acc;
          st = (fst acc)\<lparr>relaxation_count := relaxation_count (fst acc) + 1\<rparr>
      in if addw (d_hat st ! u) w \<le> d_hat st ! v then
           (let st1 = st\<lparr>d_hat := (d_hat st)[v := addw (d_hat st ! u) w]\<rparr>;
                st2 = st1\<lparr>pred := (pred st1)[v := Some u]\<rparr>
            in (st2, if addw (d_hat st2 ! u) w < B then set_insert v Wi else Wi))
         else (st, Wi))"

definition fp_round ::
  "NewSSSP \<Rightarrow> dist \<Rightarrow> nat list \<Rightarrow> sssp_state \<Rightarrow> sssp_state \<times> nat list" where
  "fp_round cfg B Wi_prev st =
     fold (\<lambda>u acc. fold (fp_relax B u) (g_adj (graph cfg) ! u) acc) Wi_prev (st, [])"

text \<open>
  The loop \<^verbatim>\<open>for (i = 0; i < k; ++i)\<close>, counted down; the flag tells whether the early
  return was taken.
\<close>

fun fp_rounds ::
  "NewSSSP \<Rightarrow> dist \<Rightarrow> nat list \<Rightarrow> nat \<Rightarrow> nat list \<Rightarrow> nat list \<Rightarrow> sssp_state
     \<Rightarrow> bool \<times> nat list \<times> sssp_state" where
  "fp_rounds cfg B S 0 W Wi_prev st = (False, W, st)"
| "fp_rounds cfg B S (Suc i) W Wi_prev st =
     (let r = fp_round cfg B Wi_prev st; st1 = fst r; Wi = snd r;
          W1 = fold set_insert Wi W
      in if length W1 > sp_k cfg * length S then (True, W1, st1)
         else fp_rounds cfg B S i W1 Wi st1)"

text \<open>
  \<^verbatim>\<open>children[p]\<close> lists, in increasing order, the members of \<open>W\<close> whose predecessor is
  \<open>p\<close>, for \<open>p\<close> in \<open>W\<close>.  \<^verbatim>\<open>computeSize\<close> is a recursive lambda with no bound on its depth;
  the model gives it fuel and \<open>None\<close> stands for running out of it.  (The maps
  \<^verbatim>\<open>parent\<close> and the set \<^verbatim>\<open>in_heap\<close> of the source are written and never read.)
\<close>

definition children :: "nat list \<Rightarrow> sssp_state \<Rightarrow> nat \<Rightarrow> nat list" where
  "children W st p = (if p \<in> set W then filter (\<lambda>v. pred st ! v = Some p) W else [])"

fun computeSize :: "nat \<Rightarrow> (nat \<Rightarrow> nat list) \<Rightarrow> nat list \<Rightarrow> nat \<Rightarrow> nat option" where
  "computeSize 0 ch W v = None"
| "computeSize (Suc f) ch W v =
     map_option (\<lambda>sizes. 1 + sum_list sizes)
       (those (map (computeSize f ch W) (filter (\<lambda>c. c \<in> set W) (ch v))))"

definition findPivots ::
  "nat \<Rightarrow> NewSSSP \<Rightarrow> dist \<Rightarrow> nat list \<Rightarrow> sssp_state
     \<Rightarrow> ((nat list \<times> nat list) \<times> sssp_state) option" where
  "findPivots fuel cfg B S st =
     (let r = fp_rounds cfg B S (sp_k cfg) S S st; W = fst (snd r); st1 = snd (snd r) in
      if fst r then Some ((S, W), st1)
      else
        (let roots = filter (\<lambda>v. v \<in> set S) W in
         case those (map (computeSize fuel (children W st1) W) roots) of
           None \<Rightarrow> None
         | Some sizes \<Rightarrow>
             (let subtree_size = (\<lambda>u. case map_of (zip roots sizes) u of Some s \<Rightarrow> s | None \<Rightarrow> 0);
                  P0 = filter (\<lambda>u. subtree_size u \<ge> sp_k cfg) S;
                  P = (if P0 = [] \<and> S \<noteq> [] then [hd S] else P0);
                  st2 = st1\<lparr>complete := fold (\<lambda>v c. c[v := True]) W (complete st1)\<rparr>
              in Some ((P, W), st2))))"

subsection \<open>\<^verbatim>\<open>baseCase\<close>\<close>

text \<open>
  The \<^verbatim>\<open>std::priority_queue\<close> with \<^verbatim>\<open>std::greater\<close> on \<^verbatim>\<open>(distance, vertex)\<close> pairs is a list
  kept in increasing lexicographic order: \<^verbatim>\<open>top\<close> is its head.  The \<^verbatim>\<open>while\<close> loop has no
  bound; it runs on fuel.
\<close>

definition bc_relax ::
  "dist \<Rightarrow> nat \<Rightarrow> nat \<times> real \<Rightarrow> sssp_state \<times> (dist \<times> nat) list
     \<Rightarrow> sssp_state \<times> (dist \<times> nat) list" where
  "bc_relax B u e acc =
     (let v = fst e; w = snd e; H = snd acc;
          st = (fst acc)\<lparr>relaxation_count := relaxation_count (fst acc) + 1\<rparr>
      in if addw (d_hat st ! u) w \<le> d_hat st ! v \<and> addw (d_hat st ! u) w < B then
           (let st1 = st\<lparr>d_hat := (d_hat st)[v := addw (d_hat st ! u) w]\<rparr>;
                st2 = st1\<lparr>pred := (pred st1)[v := Some u]\<rparr>
            in (st2, insort (d_hat st2 ! v, v) H))
         else (st, H))"

fun bc_loop ::
  "nat \<Rightarrow> NewSSSP \<Rightarrow> dist \<Rightarrow> nat list \<Rightarrow> (dist \<times> nat) list \<Rightarrow> sssp_state
     \<Rightarrow> (nat list \<times> (dist \<times> nat) list \<times> sssp_state) option" where
  "bc_loop 0 cfg B U0 H st =
     (if H \<noteq> [] \<and> length U0 < sp_k cfg + 1 then None else Some (U0, H, st))"
| "bc_loop (Suc f) cfg B U0 H st =
     (if H \<noteq> [] \<and> length U0 < sp_k cfg + 1 then
        (let dist = fst (hd H); u = snd (hd H); H1 = tl H in
         if dist > d_hat st ! u then bc_loop f cfg B U0 H1 st
         else
           (let U1 = set_insert u U0;
                st1 = st\<lparr>complete := (complete st)[u := True]\<rparr>;
                r = fold (bc_relax B u) (g_adj (graph cfg) ! u) (st1, H1)
            in bc_loop f cfg B U1 (snd r) (fst r)))
      else Some (U0, H, st))"

definition baseCase ::
  "nat \<Rightarrow> NewSSSP \<Rightarrow> dist \<Rightarrow> nat list \<Rightarrow> sssp_state
     \<Rightarrow> ((dist \<times> nat list) \<times> sssp_state) option" where
  "baseCase fuel cfg B S st =
     (if S = [] then Some ((B, []), st)
      else
        (let x = hd S in
         case bc_loop fuel cfg B [x] [(d_hat st ! x, x)] st of
           None \<Rightarrow> None
         | Some r \<Rightarrow>
             (let U0 = fst r; st' = snd (snd r) in
              if length U0 \<le> sp_k cfg then Some ((B, U0), st')
              else
                (let max_dist = fold (\<lambda>v m. max m (d_hat st' ! v)) U0 (Fin 0);
                     U_result = filter (\<lambda>v. d_hat st' ! v < max_dist) U0
                 in Some ((max_dist, U_result), st')))))"



subsection \<open>\<^verbatim>\<open>BMSSP\<close>\<close>

text \<open>
  \<^verbatim>\<open>static_cast<int>(std::pow(2, e))\<close> is \<open>2 ^ e\<close> (as long as it fits an \<^verbatim>\<open>int\<close>).
  \<open>bm_relax\<close> is the body of the edge loop of the main loop for one arc; it works on the
  arrays, the data structure \<open>D\<close> and the batch \<open>K\<close>.
\<close>

definition block_size :: "NewSSSP \<Rightarrow> nat \<Rightarrow> nat" where
  "block_size cfg level = max 1 (min (2 ^ ((level - 1) * sp_t cfg)) (g_n (graph cfg)))"

definition size_limit :: "NewSSSP \<Rightarrow> nat \<Rightarrow> nat" where
  "size_limit cfg level = max 1 (min (sp_k cfg * 2 ^ (level * sp_t cfg)) (g_n (graph cfg)))"

definition insert_pivots ::
  "dist \<Rightarrow> sssp_state \<Rightarrow> nat list \<Rightarrow> BlockDataStructure \<Rightarrow> error + BlockDataStructure" where
  "insert_pivots B st P D =
     fold (\<lambda>x acc. case acc of
                      Inl e \<Rightarrow> Inl e
                    | Inr D' \<Rightarrow> if d_hat st ! x < B then insert_ds x (d_hat st ! x) D' else Inr D')
       P (Inr D)"

definition B_prime_init :: "sssp_state \<Rightarrow> nat list \<Rightarrow> dist" where
  "B_prime_init st P =
     (let b = fold (\<lambda>x b. if complete st ! x then min b (d_hat st ! x) else b) P PInf in
      if b = PInf \<and> P \<noteq> [] then d_hat st ! hd P else b)"

definition bm_relax ::
  "dist \<Rightarrow> dist \<Rightarrow> dist \<Rightarrow> nat \<Rightarrow> nat \<times> real
     \<Rightarrow> error + sssp_state \<times> BlockDataStructure \<times> KeyValue list
     \<Rightarrow> error + sssp_state \<times> BlockDataStructure \<times> KeyValue list" where
  "bm_relax B Bi B_prime_i u e acc =
     (case acc of
        Inl err \<Rightarrow> Inl err
      | Inr a \<Rightarrow>
          (let v = fst e; w = snd e; D = fst (snd a); K = snd (snd a);
               st = (fst a)\<lparr>relaxation_count := relaxation_count (fst a) + 1\<rparr>
           in if addw (d_hat st ! u) w \<le> d_hat st ! v then
                (let st1 = st\<lparr>d_hat := (d_hat st)[v := addw (d_hat st ! u) w]\<rparr>;
                     st2 = st1\<lparr>pred := (pred st1)[v := Some u]\<rparr>;
                     nd = addw (d_hat st2 ! u) w
                 in if nd \<ge> Bi \<and> nd < B then
                      (case insert_ds v nd D of
                         Inl err \<Rightarrow> Inl err
                       | Inr D' \<Rightarrow> Inr (st2, D', K))
                    else if nd \<ge> B_prime_i \<and> nd < Bi then Inr (st2, D, K @ [(v, nd)])
                    else Inr (st2, D, K))
              else Inr (st, D, K)))"

text \<open>
  What one iteration of the main loop does after the recursive call has returned
  \<open>(B_prime_i, Ui)\<close>: relax the arcs out of \<open>Ui\<close>, add the members of \<open>Si\<close> that go back,
  and batch-prepend.
\<close>

definition bm_after_call ::
  "NewSSSP \<Rightarrow> dist \<Rightarrow> dist \<Rightarrow> dist \<Rightarrow> nat list \<Rightarrow> nat list \<Rightarrow> BlockDataStructure
     \<Rightarrow> sssp_state \<Rightarrow> error + sssp_state \<times> BlockDataStructure" where
  "bm_after_call cfg B Bi B_prime_i Si Ui D st =
     (case fold (\<lambda>u acc. fold (bm_relax B Bi B_prime_i u) (g_adj (graph cfg) ! u) acc) Ui
             (Inr (st, D, [])) of
        Inl err \<Rightarrow> Inl err
      | Inr a \<Rightarrow>
          (let st2 = fst a; D2 = fst (snd a);
               K = fold (\<lambda>x K. if d_hat st2 ! x \<ge> B_prime_i \<and> d_hat st2 ! x < Bi
                                then K @ [(x, d_hat st2 ! x)] else K) Si (snd (snd a))
           in case batchPrepend K D2 of
                Inl err \<Rightarrow> Inl err
              | Inr D3 \<Rightarrow> Inr (st2, D3)))"

definition bm_finish ::
  "dist \<Rightarrow> nat list \<Rightarrow> nat list \<Rightarrow> dist \<Rightarrow> sssp_state \<Rightarrow> (dist \<times> nat list) \<times> sssp_state" where
  "bm_finish B W U B_prime_i st =
     (let B_prime = min B_prime_i B in
      ((B_prime, fold (\<lambda>x U'. if d_hat st ! x < B_prime then set_insert x U' else U') W U), st))"

text \<open>
  The recursion of \<^verbatim>\<open>BMSSP\<close> and its \<^verbatim>\<open>while\<close> loop.  Neither has a bound in the source:
  both run on fuel, one unit per call and per iteration, and \<open>None\<close> is "out of fuel".
  \<open>Some (Inl e)\<close> is undefined behaviour reached, \<open>Some (Inr r)\<close> a normal return.
\<close>

fun BMSSP ::
  "nat \<Rightarrow> NewSSSP \<Rightarrow> nat \<Rightarrow> dist \<Rightarrow> nat list \<Rightarrow> sssp_state
     \<Rightarrow> (error + (dist \<times> nat list) \<times> sssp_state) option"
and BMSSP_loop ::
  "nat \<Rightarrow> NewSSSP \<Rightarrow> nat \<Rightarrow> dist \<Rightarrow> BlockDataStructure \<Rightarrow> nat list \<Rightarrow> dist \<Rightarrow> sssp_state
     \<Rightarrow> (error + (nat list \<times> dist) \<times> sssp_state) option" where
  "BMSSP 0 cfg level B S st = None"
| "BMSSP (Suc f) cfg level B S st =
     (if level = 0 then map_option Inr (baseCase f cfg B S st)
      else
        (case findPivots f cfg B S st of
           None \<Rightarrow> None
         | Some r \<Rightarrow>
             (let P = fst (fst r); W = snd (fst r); st1 = snd r in
              if P = [] then Some (Inr ((B, W), st1))
              else
                (case insert_pivots B st1 P
                        (initialize (int (block_size cfg level)) B
                           (int (sp_k cfg * 2 ^ (level * sp_t cfg)))) of
                   Inl err \<Rightarrow> Some (Inl err)
                 | Inr D \<Rightarrow>
                     (case BMSSP_loop f cfg level B D [] (B_prime_init st1 P) st1 of
                        None \<Rightarrow> None
                      | Some (Inl err) \<Rightarrow> Some (Inl err)
                      | Some (Inr l) \<Rightarrow>
                          Some (Inr (bm_finish B W (fst (fst l)) (snd (fst l)) (snd l))))))))"
| "BMSSP_loop 0 cfg level B D U B_prime_i st = None"
| "BMSSP_loop (Suc f) cfg level B D U B_prime_i st =
     (if length U < size_limit cfg level \<and> \<not> empty_ds D then
        (let p = pull D; Si = set_of_list (fst (fst p)); Bi = snd (fst p) in
         if Si = [] then Some (Inr ((U, B_prime_i), st))
         else
           (case BMSSP f cfg (level - 1) Bi Si st of
              None \<Rightarrow> None
            | Some (Inl err) \<Rightarrow> Some (Inl err)
            | Some (Inr c) \<Rightarrow>
                (let B_prime_i_new = fst (fst c); Ui = snd (fst c) in
                 case bm_after_call cfg B Bi B_prime_i_new Si Ui (snd p) (snd c) of
                   Inl err \<Rightarrow> Some (Inl err)
                 | Inr a \<Rightarrow>
                     BMSSP_loop f cfg level B (snd a) (fold set_insert Ui U) B_prime_i_new
                       (fst a))))
      else Some (Inr ((U, B_prime_i), st)))"

subsection \<open>\<^verbatim>\<open>solve\<close>\<close>

definition solve_relax :: "nat \<Rightarrow> nat \<times> real \<Rightarrow> sssp_state \<Rightarrow> sssp_state" where
  "solve_relax src e st =
     (let v = fst e; w = snd e in
      if addw (d_hat st ! src) w < d_hat st ! v then
        (let st1 = st\<lparr>d_hat := (d_hat st)[v := addw (d_hat st ! src) w]\<rparr>
         in st1\<lparr>pred := (pred st1)[v := Some src]\<rparr>)
      else st)"

definition solve_init :: "NewSSSP \<Rightarrow> nat \<Rightarrow> sssp_state" where
  "solve_init cfg src =
     (let n = g_n (graph cfg);
          st0 = \<lparr>d_hat = replicate n PInf, pred = replicate n None,
                 complete = replicate n False, relaxation_count = 0\<rparr>;
          st1 = st0\<lparr>d_hat := (d_hat st0)[src := Fin 0]\<rparr>;
          st2 = st1\<lparr>complete := (complete st1)[src := True]\<rparr>
      in fold (solve_relax src) (g_adj (graph cfg) ! src) st2)"

definition solve :: "nat \<Rightarrow> NewSSSP \<Rightarrow> nat \<Rightarrow> (error + Result) option" where
  "solve fuel cfg src =
     (case BMSSP fuel cfg (max_level cfg) PInf [src] (solve_init cfg src) of
        None \<Rightarrow> None
      | Some (Inl err) \<Rightarrow> Some (Inl err)
      | Some (Inr r) \<Rightarrow>
          Some (Inr \<lparr>distances = d_hat (snd r), predecessors = pred (snd r), source = src\<rparr>))"

section \<open>Well-formed workspaces\<close>

text \<open>
  The invariants the class keeps: \<open>M\<close> is at least 1, \<open>D1\<close> has a block, the index has one
  entry per key, and the elements of all blocks are exactly the entries of the index.
  \<open>inv_ds X\<close> is the same with a multiset \<open>X\<close> of entries that are in the index but not
  yet in a block, as in the middle of \<^verbatim>\<open>batchPrepend\<close>.  The reachable workspaces are those
  built from \<^verbatim>\<open>initialize\<close> by calls that return.
\<close>

definition wf_ds :: "BlockDataStructure \<Rightarrow> bool" where
  "wf_ds st \<longleftrightarrow>
     1 \<le> ds_M st \<and> D1 st \<noteq> [] \<and> distinct (map fst (key_values st)) \<and>
     mset (all_elements st) = mset (key_values st)"

abbreviation elems_of :: "Block list \<Rightarrow> KeyValue list" where
  "elems_of bs \<equiv> concat (map elements bs)"

definition inv_ds :: "KeyValue multiset \<Rightarrow> BlockDataStructure \<Rightarrow> bool" where
  "inv_ds X st \<longleftrightarrow>
     1 \<le> ds_M st \<and> D1 st \<noteq> [] \<and> distinct (map fst (key_values st)) \<and>
     mset (all_elements st) + X = mset (key_values st)"

inductive reachable_ds :: "BlockDataStructure \<Rightarrow> bool" where
  reach_initialize: "reachable_ds (initialize m b max_n)"
| reach_insert: "reachable_ds st \<Longrightarrow> insert_ds k v st = Inr st' \<Longrightarrow> reachable_ds st'"
| reach_batchPrepend: "reachable_ds st \<Longrightarrow> batchPrepend items st = Inr st' \<Longrightarrow> reachable_ds st'"
| reach_pull: "reachable_ds st \<Longrightarrow> reachable_ds (snd (pull st))"

section \<open>Well-formed graphs and the base case's contract\<close>

text \<open>
  The graphs \<^verbatim>\<open>solve\<close> is meant for: one adjacency list per vertex, every arc target a
  vertex, every weight non-negative.
\<close>

definition wf_graph :: "SimpleGraph \<Rightarrow> bool" where
  "wf_graph g \<longleftrightarrow>
     length (g_adj g) = g_n g \<and>
     list_all (list_all (\<lambda>e. fst e < g_n g \<and> 0 \<le> snd e)) (g_adj g)"



section \<open>Reachability and relaxation steps\<close>

text \<open>
  \<open>arc g u v\<close>: the graph has an arc from \<open>u\<close> to \<open>v\<close>; \<open>reachable\<close> is its reflexive
  transitive closure; \<open>zero_arc\<close> keeps the arcs of weight 0.
\<close>

definition arc :: "SimpleGraph \<Rightarrow> nat \<Rightarrow> nat \<Rightarrow> bool" where
  "arc g u v \<longleftrightarrow> u < g_n g \<and> v \<in> fst ` set (g_adj g ! u)"

definition reachable :: "SimpleGraph \<Rightarrow> nat \<Rightarrow> nat \<Rightarrow> bool" where
  "reachable g s v \<longleftrightarrow> (arc g)\<^sup>*\<^sup>* s v"

definition zero_arc :: "SimpleGraph \<Rightarrow> nat \<Rightarrow> nat \<Rightarrow> bool" where
  "zero_arc g u v \<longleftrightarrow> u < g_n g \<and> (v, 0) \<in> set (g_adj g ! u)"

text \<open>
  Every change the solver makes to its arrays is one of three: a relaxation of an arc
  \<open>u \<rightarrow> v\<close> under the guard \<open>d_hat[u] + w \<le> d_hat[v]\<close>, which writes \<open>d_hat[v]\<close> and
  \<open>pred[v]\<close>; a new relaxation counter; a new \<open>complete\<close> array.  \<open>X\<close> bounds the
  vertices whose arcs are relaxed.  \<open>relax_steps\<close> is any number of such changes.
\<close>

inductive relax_step :: "SimpleGraph \<Rightarrow> nat set \<Rightarrow> sssp_state \<Rightarrow> sssp_state \<Rightarrow> bool"
  for g :: SimpleGraph and X :: "nat set" where
  rs_relax:
    "u \<in> X \<Longrightarrow> e \<in> set (g_adj g ! u) \<Longrightarrow> addw (d_hat st ! u) (snd e) \<le> d_hat st ! fst e \<Longrightarrow>
       relax_step g X st
         (st\<lparr>d_hat := (d_hat st)[fst e := addw (d_hat st ! u) (snd e)],
             pred := (pred st)[fst e := Some u]\<rparr>)"
| rs_count: "relax_step g X st (st\<lparr>relaxation_count := c\<rparr>)"
| rs_complete: "relax_step g X st (st\<lparr>complete := c\<rparr>)"

definition relax_steps :: "SimpleGraph \<Rightarrow> nat set \<Rightarrow> sssp_state \<Rightarrow> sssp_state \<Rightarrow> bool" where
  "relax_steps g X = (relax_step g X)\<^sup>*\<^sup>*"

definition closed_under_arcs :: "SimpleGraph \<Rightarrow> nat set \<Rightarrow> bool" where
  "closed_under_arcs g X \<longleftrightarrow> (\<forall>u\<in>X. \<forall>e\<in>set (g_adj g ! u). fst e \<in> X)"

text \<open>
  The keys of a workspace, and what the edge loop of \<^verbatim>\<open>BMSSP\<close> keeps true of its arrays,
  workspace and batch: the arrays come from \<open>st0\<close> by relaxation steps, the workspace is
  well formed, and all keys are in \<open>X\<close>.
\<close>

definition ds_keys :: "BlockDataStructure \<Rightarrow> nat set" where
  "ds_keys D = fst ` set (key_values D)"

definition bm_ok ::
  "SimpleGraph \<Rightarrow> nat set \<Rightarrow> sssp_state \<Rightarrow> sssp_state \<times> BlockDataStructure \<times> KeyValue list \<Rightarrow> bool" where
  "bm_ok g X st0 a \<longleftrightarrow>
     relax_steps g X st0 (fst a) \<and> wf_ds (fst (snd a)) \<and> ds_keys (fst (snd a)) \<subseteq> X \<and>
     fst ` set (snd (snd a)) \<subseteq> X"

text \<open>
  The arrays of \<^verbatim>\<open>solve\<close> before the seed relaxation, and three properties of arrays:
  no entry outside \<open>X\<close> has been written; all estimates are non-negative and the
  source's is 0; and, on top of that, an estimate is 0 only where a path of zero-weight
  arcs leads from the source, and the source has no predecessor.
\<close>

definition init_arrays :: "nat \<Rightarrow> nat \<Rightarrow> sssp_state" where
  "init_arrays n s =
     \<lparr>d_hat = (replicate n PInf)[s := Fin 0], pred = replicate n None,
      complete = (replicate n False)[s := True], relaxation_count = 0\<rparr>"

definition untouched :: "nat \<Rightarrow> nat set \<Rightarrow> sssp_state \<Rightarrow> bool" where
  "untouched n X st \<longleftrightarrow>
     length (d_hat st) = n \<and> length (pred st) = n \<and>
     (\<forall>i<n. i \<notin> X \<longrightarrow> d_hat st ! i = PInf \<and> pred st ! i = None)"

definition nonneg_inv :: "SimpleGraph \<Rightarrow> nat \<Rightarrow> sssp_state \<Rightarrow> bool" where
  "nonneg_inv g s st \<longleftrightarrow>
     length (d_hat st) = g_n g \<and> (\<forall>i<g_n g. Fin 0 \<le> d_hat st ! i) \<and> d_hat st ! s = Fin 0"

definition zero_inv :: "SimpleGraph \<Rightarrow> nat \<Rightarrow> sssp_state \<Rightarrow> bool" where
  "zero_inv g s st \<longleftrightarrow>
     nonneg_inv g s st \<and> length (pred st) = g_n g \<and>
     (\<forall>i<g_n g. d_hat st ! i = Fin 0 \<longrightarrow> (zero_arc g)\<^sup>*\<^sup>* s i) \<and> pred st ! s = None"

text \<open>
  \<open>on_zero_cycle g s c\<close>: \<open>c\<close> lies on a closed walk of zero-weight arcs through \<open>s\<close>.
  \<open>heap_ok\<close>: the heap of the base case is sorted and each entry \<open>(d, v)\<close> has a vertex
  \<open>v\<close>, a non-negative \<open>d\<close> and \<open>d_hat[v] \<le> d\<close>.  \<open>single_ds s\<close>: a well-formed
  workspace with bound infinity whose only key is \<open>s\<close>, with value 0.
\<close>

definition on_zero_cycle :: "SimpleGraph \<Rightarrow> nat \<Rightarrow> nat \<Rightarrow> bool" where
  "on_zero_cycle g s c \<longleftrightarrow> (zero_arc g)\<^sup>*\<^sup>* s c \<and> (zero_arc g)\<^sup>*\<^sup>* c s"

definition heap_ok :: "nat \<Rightarrow> sssp_state \<Rightarrow> (dist \<times> nat) list \<Rightarrow> bool" where
  "heap_ok n st H \<longleftrightarrow>
     sorted H \<and> (\<forall>p\<in>set H. snd p < n \<and> Fin 0 \<le> fst p \<and> d_hat st ! snd p \<le> fst p)"

definition single_ds :: "nat \<Rightarrow> BlockDataStructure \<Rightarrow> bool" where
  "single_ds s D \<longleftrightarrow> wf_ds D \<and> key_values D = [(s, Fin 0)] \<and> ds_B D = PInf"

text \<open>
  \<open>pred_inv g s\<close>: every vertex other than the source with a finite estimate has a
  predecessor \<open>u\<close> and an arc \<open>u \<rightarrow> i\<close> of some weight \<open>w\<close> with \<open>d_hat[u] + w \<le> d_hat[i]\<close>.
\<close>

definition pred_inv :: "SimpleGraph \<Rightarrow> nat \<Rightarrow> sssp_state \<Rightarrow> bool" where
  "pred_inv g s st \<longleftrightarrow>
     length (d_hat st) = g_n g \<and> length (pred st) = g_n g \<and>
     (\<forall>i<g_n g. i \<noteq> s \<and> d_hat st ! i \<noteq> PInf \<longrightarrow>
        (\<exists>u w. pred st ! i = Some u \<and> u < g_n g \<and> (i, w) \<in> set (g_adj g ! u) \<and>
               addw (d_hat st ! u) w \<le> d_hat st ! i))"









section \<open>Concrete inputs\<close>

text \<open>
  The workspace of the repository's test \<^verbatim>\<open>DuplicateKeys\<close>: \<^verbatim>\<open>initialize(3, 1000.0, 10)\<close>,
  then \<^verbatim>\<open>insert(0, 10.0)\<close>.
\<close>

definition ds_one_key :: BlockDataStructure where
  "ds_one_key =
     \<lparr>ds_M = 3, ds_B = Fin 1000, ds_N = 10, D0 = [],
      D1 = [\<lparr>elements = [(0, Fin 10)], upper_bound = Fin 1000\<rparr>],
      key_values = [(0, Fin 10)], d1_upper_bounds = {Fin 1000}\<rparr>"

definition ds_one_key_lowered :: BlockDataStructure where
  "ds_one_key_lowered =
     \<lparr>ds_M = 3, ds_B = Fin 1000, ds_N = 10, D0 = [],
      D1 = [\<lparr>elements = [(0, Fin 5)], upper_bound = Fin 1000\<rparr>],
      key_values = [(0, Fin 5)], d1_upper_bounds = {Fin 1000}\<rparr>"

text \<open>
  The star graph of the repository's test \<^verbatim>\<open>NewSSSPTest.StarGraph\<close>: ten vertices and an
  arc from \<open>0\<close> to each \<open>i\<close> in \<open>1..9\<close> of weight \<open>i\<close>.  For \<open>n = 10\<close> the constructor
  computes \<open>log2 10\<close>, about \<open>3.32\<close>, and from it \<open>k = max 2 (floor 1.49) = 2\<close>,
  \<open>t = max 2 (floor 2.22) = 2\<close> and \<open>max_level = max 1 (ceil 1.66) = 2\<close>.
\<close>

definition star_graph :: SimpleGraph where
  "star_graph =
     \<lparr>g_n = 10, g_m = 9,
      g_adj = [[(1, 1), (2, 2), (3, 3), (4, 4), (5, 5), (6, 6), (7, 7), (8, 8), (9, 9)],
               [], [], [], [], [], [], [], [], []]\<rparr>"

definition star_solver :: NewSSSP where
  "star_solver = \<lparr>graph = star_graph, sp_k = 2, sp_t = 2, max_level = 2\<rparr>"

text \<open>
  A workspace with block size 2 and bound 100 after \<^verbatim>\<open>insert(4, 10.0)\<close> and
  \<^verbatim>\<open>batchPrepend({(1, 1.0), (2, 2.0), (3, 3.0)})\<close>: the batch is longer than \<open>M\<close> and is
  cut into three blocks of one element.
\<close>

definition ds_three_blocks :: BlockDataStructure where
  "ds_three_blocks =
     \<lparr>ds_M = 2, ds_B = Fin 100, ds_N = 20,
      D0 = [\<lparr>elements = [(1, Fin 1)], upper_bound = Fin 1\<rparr>,
            \<lparr>elements = [(2, Fin 2)], upper_bound = Fin 2\<rparr>,
            \<lparr>elements = [(3, Fin 3)], upper_bound = Fin 3\<rparr>],
      D1 = [\<lparr>elements = [(4, Fin 10)], upper_bound = Fin 100\<rparr>],
      key_values = [(4, Fin 10), (1, Fin 1), (2, Fin 2), (3, Fin 3)],
      d1_upper_bounds = {Fin 100}\<rparr>"

text \<open>
  The diamond graph of the repository's test \<^verbatim>\<open>NewSSSPTest.DiamondGraph\<close> (\<open>n = 4\<close>, so
  \<open>k = 2\<close>, \<open>t = 2\<close>, \<open>max_level = 1\<close>), the arrays after the seed relaxation of
  \<^verbatim>\<open>solve(0)\<close>, and the arrays after the base case has run from vertex 0 with bound
  infinity.
\<close>

definition diamond_solver :: NewSSSP where
  "diamond_solver =
     \<lparr>graph = \<lparr>g_n = 4, g_m = 4, g_adj = [[(1, 1), (2, 3)], [(3, 4)], [(3, 1)], []]\<rparr>,
      sp_k = 2, sp_t = 2, max_level = 1\<rparr>"

definition diamond_start :: sssp_state where
  "diamond_start =
     \<lparr>d_hat = [Fin 0, Fin 1, Fin 3, PInf], pred = [None, Some 0, Some 0, None],
      complete = [True, False, False, False], relaxation_count = 0\<rparr>"


text \<open>
  The graph of the specification's scenario "Disconnected" (\<open>n = 4\<close>, the one arc
  \<open>0 \<rightarrow> 1\<close> of weight 1; \<open>k = 2\<close>, \<open>t = 2\<close>, \<open>max_level = 1\<close>) and what \<^verbatim>\<open>solve(0)\<close>
  returns on it.
\<close>

definition disconnected_solver :: NewSSSP where
  "disconnected_solver =
     \<lparr>graph = \<lparr>g_n = 4, g_m = 1, g_adj = [[(1, 1)], [], [], []]\<rparr>,
      sp_k = 2, sp_t = 2, max_level = 1\<rparr>"

definition disconnected_result :: Result where
  "disconnected_result =
     \<lparr>distances = [Fin 0, Fin 1, PInf, PInf], predecessors = [None, Some 0, None, None],
      source = 0\<rparr>"

text \<open>Arrays of a two-vertex solve in which vertex 1 has the estimate 5.\<close>

definition two_vertex_state :: sssp_state where
  "two_vertex_state =
     \<lparr>d_hat = [Fin 0, Fin 5], pred = [None, None], complete = [True, False],
      relaxation_count = 0\<rparr>"

text \<open>
  Two vertices joined by arcs of weight 0 in both directions (\<open>k = 2\<close>, \<open>t = 2\<close>,
  \<open>max_level = 1\<close>), and the arrays of \<^verbatim>\<open>solve(0)\<close> after its seed relaxation.
\<close>

definition zero_cycle_solver :: NewSSSP where
  "zero_cycle_solver =
     \<lparr>graph = \<lparr>g_n = 2, g_m = 2, g_adj = [[(1, 0)], [(0, 0)]]\<rparr>,
      sp_k = 2, sp_t = 2, max_level = 1\<rparr>"

definition zero_cycle_start :: sssp_state where
  "zero_cycle_start =
     \<lparr>d_hat = [Fin 0, Fin 0], pred = [None, Some 0], complete = [True, False],
      relaxation_count = 0\<rparr>"

section \<open>Properties of the block data structure\<close>

lemma less_dist_simps [simp]:
  "Fin a < Fin b \<longleftrightarrow> a < b" "Fin a < PInf" "\<not> PInf < x"
  by (cases x; auto simp: less_dist_def)+

text \<open>
  Claim C9.  \<^verbatim>\<open>getValue\<close> returns plus infinity for a key that is not in the key-to-value
  index and exactly the stored value for a key that is.
\<close>

theorem getValue_absent_present:
  "(map_of (key_values st) key = None \<longrightarrow> getValue st key = PInf) \<and>
   (\<forall>v. map_of (key_values st) key = Some v \<longrightarrow> getValue st key = v)"
  by (simp add: getValue_def)

lemma ds_one_key_built:
  "insert_ds 0 (Fin 10) (initialize 3 (Fin 1000) 10) = Inr ds_one_key"
  by (simp add: insert_ds_def insert_fresh_def initialize_def findBlockForValue_def
      ds_one_key_def Let_def)

theorem getValue_absent_present_witness:
  "map_of (key_values ds_one_key) 7 = None \<and> getValue ds_one_key 7 = PInf \<and>
   map_of (key_values ds_one_key) 0 = Some (Fin 10) \<and> getValue ds_one_key 0 = Fin 10"
  using getValue_absent_present [of ds_one_key 7] getValue_absent_present [of ds_one_key 0]
  by (simp add: ds_one_key_def)

subsection \<open>The index and the blocks agree\<close>

lemma erase_elem_None: "erase_elem k es = None \<longleftrightarrow> k \<notin> fst ` set es"
  by (induction es) auto

lemma erase_elem_Some:
  "erase_elem k es = Some es' \<Longrightarrow> \<exists>v. mset es = add_mset (k, v) (mset es')"
proof (induction es arbitrary: es')
  case Nil
  then show ?case by simp
next
  case (Cons e es)
  show ?case
  proof (cases "fst e = k")
    case True
    with Cons.prems have "es' = es" by simp
    with True show ?thesis by (cases e) auto
  next
    case False
    with Cons.prems obtain r where r: "erase_elem k es = Some r" "es' = e # r"
      by auto
    from Cons.IH [OF r(1)] obtain v where "mset es = add_mset (k, v) (mset r)" by blast
    with r(2) show ?thesis by auto
  qed
qed

lemma erase_blocks_None: "erase_blocks k bs = None \<longleftrightarrow> k \<notin> fst ` set (elems_of bs)"
proof (induction bs)
  case Nil
  then show ?case by simp
next
  case (Cons b bs)
  show ?case
  proof (cases "erase_elem k (elements b)")
    case None
    then have "k \<notin> fst ` set (elements b)" by (simp add: erase_elem_None)
    with None Cons.IH show ?thesis by (auto simp: image_Un)
  next
    case (Some es)
    then have "k \<in> fst ` set (elements b)"
      using erase_elem_None [of k "elements b"] by auto
    with Some show ?thesis by (auto simp: image_Un)
  qed
qed

lemma erase_blocks_Some:
  "erase_blocks k bs = Some bs' \<Longrightarrow>
     (\<exists>v. mset (elems_of bs) = add_mset (k, v) (mset (elems_of bs'))) \<and>
     length bs' = length bs \<and> map upper_bound bs' = map upper_bound bs"
proof (induction bs arbitrary: bs')
  case Nil
  then show ?case by simp
next
  case (Cons b bs)
  show ?case
  proof (cases "erase_elem k (elements b)")
    case (Some es)
    with Cons.prems have bs': "bs' = b\<lparr>elements := es\<rparr> # bs" by simp
    from erase_elem_Some [OF Some] obtain v where "mset (elements b) = add_mset (k, v) (mset es)"
      by blast
    with bs' show ?thesis by auto
  next
    case None
    with Cons.prems obtain r where r: "erase_blocks k bs = Some r" "bs' = b # r"
      by auto
    from Cons.IH [OF r(1)] r(2) show ?thesis by auto
  qed
qed

lemma mset_delete:
  "distinct (map fst al) \<Longrightarrow> map_of al k = Some v \<Longrightarrow>
     mset (AList.delete k al) = mset al - {#(k, v)#}"
proof (induction al)
  case Nil
  then show ?case by simp
next
  case (Cons p al)
  show ?case
  proof (cases "fst p = k")
    case True
    with Cons.prems have "p = (k, v)" by (cases p) auto
    moreover from True Cons.prems have "k \<notin> fst ` set al" by auto
    then have "AList.delete k al = al" by (simp add: delete_id image_iff) 
    ultimately show ?thesis by simp
  next
    case False
    with Cons.prems have "map_of al k = Some v" "distinct (map fst al)" by (cases p; auto)+
    from Cons.IH [OF this(2,1)] False have "mset (AList.delete k (p # al)) = add_mset p (mset al - {#(k, v)#})"
      by simp
    moreover from \<open>map_of al k = Some v\<close> have "(k, v) \<in># mset al" by (auto dest: map_of_SomeD)
    ultimately show ?thesis using False by (cases p) (auto)
  qed
qed

lemma mset_update_fresh:
  "map_of al k = None \<Longrightarrow> mset (AList.update k v al) = add_mset (k, v) (mset al)"
  by (induction al) (auto split: if_splits)


lemma wf_ds_inv: "wf_ds st \<longleftrightarrow> inv_ds {#} st"
  by (simp add: wf_ds_def inv_ds_def)

lemma distinct_keys_value:
  "distinct (map fst al) \<Longrightarrow> (k, v) \<in> set al \<Longrightarrow> (k, v') \<in> set al \<Longrightarrow> v' = v"
  by (metis map_of_is_SomeI option.inject)

lemma removeKey_absent: "map_of (key_values st) k = None \<Longrightarrow> removeKey k st = st"
  by (simp add: removeKey_def)

lemma removeKey_fields [simp]:
  "ds_M (removeKey k st) = ds_M st" "ds_B (removeKey k st) = ds_B st"
  by (auto simp: removeKey_def Let_def split: option.splits)

lemma removeKey_inv:
  assumes inv: "inv_ds X st" and kv: "map_of (key_values st) k = Some v"
    and X: "k \<notin> fst ` set_mset X"
  shows "inv_ds X (removeKey k st) \<and>
         mset (key_values (removeKey k st)) = mset (key_values st) - {#(k, v)#} \<and>
         mset (all_elements (removeKey k st)) = mset (all_elements st) - {#(k, v)#} \<and>
         map_of (key_values (removeKey k st)) k = None"
proof -
  from inv have dist: "distinct (map fst (key_values st))"
    and eq: "mset (all_elements st) + X = mset (key_values st)"
    and M: "1 \<le> ds_M st" and D1: "D1 st \<noteq> []"
    by (auto simp: inv_ds_def)
  from kv have in_kv: "(k, v) \<in> set (key_values st)" by (rule map_of_SomeD)
  then have "(k, v) \<in># mset (all_elements st) + X" by (simp add: eq)
  with X have in_all: "(k, v) \<in># mset (all_elements st)"
    by (metis fst_conv image_eqI union_iff)
  have val: "v' = v" if "(k, v') \<in># mset (all_elements st)" for v'
  proof -
    from that have "(k, v') \<in># mset (key_values st)" by (metis eq union_iff)
    then show ?thesis using distinct_keys_value [OF dist in_kv] by simp
  qed
  have kvs': "mset (AList.delete k (key_values st)) = mset (key_values st) - {#(k, v)#}"
    by (rule mset_delete [OF dist kv])
  have dist': "distinct (map fst (AList.delete k (key_values st)))"
    using dist by (rule distinct_delete)
  have none': "map_of (AList.delete k (key_values st)) k = None"
    by (simp add: delete_conv)
  have sub: "mset (all_elements st) - {#(k, v)#} + X = mset (key_values st) - {#(k, v)#}"
    using in_all eq by (metis add.commute add_mset_remove_trivial insert_DiffM union_mset_add_mset_right)
  show ?thesis
  proof (cases "erase_blocks k (D0 st)")
    case (Some d0)
    from erase_blocks_Some [OF Some] obtain v' where
      v': "mset (elems_of (D0 st)) = add_mset (k, v') (mset (elems_of d0))" by blast
    then have "(k, v') \<in># mset (all_elements st)" by (simp add: all_elements_def)
    then have "v' = v" by (rule val)
    with v' have all': "mset (elems_of d0) + mset (elems_of (D1 st)) = mset (all_elements st) - {#(k, v)#}"
      by (simp add: all_elements_def)
    have r: "removeKey k st = st\<lparr>key_values := AList.delete k (key_values st), D0 := d0\<rparr>"
      using kv Some by (simp add: removeKey_def Let_def)
    show ?thesis
      unfolding r using all' kvs' dist' none' sub M D1
      by (simp add: inv_ds_def all_elements_def)
  next
    case None
    then have "k \<notin> fst ` set (elems_of (D0 st))" by (simp add: erase_blocks_None)
    with in_all have "k \<in> fst ` set (elems_of (D1 st))"
      by (force simp: all_elements_def)
    then obtain d1 where d1: "erase_blocks k (D1 st) = Some d1"
      using erase_blocks_None [of k "D1 st"] by (cases "erase_blocks k (D1 st)") auto
    from erase_blocks_Some [OF d1] obtain v' where
      v': "mset (elems_of (D1 st)) = add_mset (k, v') (mset (elems_of d1))"
      and len: "length d1 = length (D1 st)" by blast
    then have "(k, v') \<in># mset (all_elements st)" by (simp add: all_elements_def)
    then have "v' = v" by (rule val)
    with v' have all': "mset (elems_of (D0 st)) + mset (elems_of d1) = mset (all_elements st) - {#(k, v)#}"
      by (simp add: all_elements_def)
    from len D1 have d1ne: "d1 \<noteq> []" by auto
    have r: "removeKey k st = st\<lparr>key_values := AList.delete k (key_values st), D1 := d1\<rparr>"
      using kv None d1 by (simp add: removeKey_def Let_def)
    show ?thesis
      unfolding r using all' kvs' dist' none' sub M d1ne
      by (simp add: inv_ds_def all_elements_def)
  qed
qed


lemma first_ge_less: "first_ge v bs = Some i \<Longrightarrow> i < length bs"
  by (induction bs arbitrary: i) (auto split: if_splits)

lemma findBlockForValue_ok:
  "d1 \<noteq> [] \<Longrightarrow> \<exists>i<length d1. findBlockForValue v d1 = Inr i"
  by (cases "first_ge v d1") (auto simp: findBlockForValue_def dest: first_ge_less)

lemma elems_of_nth_split:
  "i < length bs \<Longrightarrow>
     elems_of bs = elems_of (take i bs) @ elements (bs ! i) @ elems_of (drop (Suc i) bs)"
  by (subst id_take_nth_drop [of i bs]) simp_all

lemma mset_elems_of_append_elem:
  assumes "i < length bs" and "elements b' = elements (bs ! i) @ [x]"
  shows "mset (elems_of (bs[i := b'])) = add_mset x (mset (elems_of bs))"
proof -
  have "elems_of (bs[i := b']) = elems_of (take i bs) @ elements b' @ elems_of (drop (Suc i) bs)"
    using assms(1) by (simp add: upd_conv_take_nth_drop)
  then show ?thesis
    using assms(2) by (simp add: elems_of_nth_split [OF assms(1)])
qed

lemma mset_elems_of_split:
  assumes "i < length bs" and "mset (elements b1) + mset (elements b2) = mset (elements (bs ! i))"
  shows "mset (elems_of (take i bs @ [b1, b2] @ drop (Suc i) bs)) = mset (elems_of bs)"
  using assms(2) by (simp add: elems_of_nth_split [OF assms(1)] ac_simps)

lemma mset_sort_by_value [simp]: "mset (sort_by_value xs) = mset xs"
  by (simp add: sort_by_value_def)

lemma length_sort_by_value [simp]: "length (sort_by_value xs) = length xs"
  by (simp add: sort_by_value_def)

lemma mset_take_drop: "mset (take n xs) + mset (drop n xs) = mset xs"
  by (metis append_take_drop_id mset_append)

lemma splitBlock_ok:
  assumes "1 \<le> ds_M st" and "i < length (D1 st)"
  shows "\<exists>st'. splitBlock i st = Inr st' \<and> mset (elems_of (D1 st')) = mset (elems_of (D1 st)) \<and>
           D1 st' \<noteq> [] \<and> D0 st' = D0 st \<and> key_values st' = key_values st \<and>
           ds_M st' = ds_M st \<and> ds_B st' = ds_B st"
proof (cases "length (elements (D1 st ! i)) \<le> ds_M st")
  case True
  with assms(2) show ?thesis by (auto simp: splitBlock_def Let_def)
next
  case False
  with assms(1) have mid: "length (elements (D1 st ! i)) div 2 \<noteq> 0" by auto
  let ?el = "sort_by_value (elements (D1 st ! i))"
  let ?mid = "length ?el div 2"
  let ?b1 = "\<lparr>elements = take ?mid ?el, upper_bound = snd (?el ! (?mid - 1))\<rparr>"
  let ?b2 = "\<lparr>elements = drop ?mid ?el, upper_bound = upper_bound (D1 st ! i)\<rparr>"
  have "mset (elements ?b1) + mset (elements ?b2) = mset (elements (D1 st ! i))"
    by (simp add: mset_take_drop)
  from mset_elems_of_split [OF assms(2) this] False mid show ?thesis
    by (simp add: splitBlock_def Let_def)
qed

lemma insert_fresh_ok:
  assumes inv: "inv_ds X st" and kv: "map_of (key_values st) k = None"
  shows "\<exists>st'. insert_fresh k v st = Inr st' \<and> inv_ds X st' \<and>
           mset (key_values st') = add_mset (k, v) (mset (key_values st)) \<and>
           mset (all_elements st') = add_mset (k, v) (mset (all_elements st)) \<and>
           map_of (key_values st') k = Some v \<and> ds_M st' = ds_M st \<and> ds_B st' = ds_B st"
proof -
  from inv have dist: "distinct (map fst (key_values st))"
    and eq: "mset (all_elements st) + X = mset (key_values st)"
    and M: "1 \<le> ds_M st" and D1: "D1 st \<noteq> []"
    by (auto simp: inv_ds_def)
  let ?kvs = "AList.update k v (key_values st)"
  let ?st1 = "st\<lparr>key_values := ?kvs\<rparr>"
  from findBlockForValue_ok [OF D1] obtain i where
    i: "i < length (D1 st)" "findBlockForValue v (D1 st) = Inr i" by blast
  let ?b' = "(D1 st ! i)\<lparr>elements := elements (D1 st ! i) @ [(k, v)]\<rparr>"
  let ?st2 = "?st1\<lparr>D1 := (D1 st)[i := ?b']\<rparr>"
  have el2: "mset (elems_of (D1 ?st2)) = add_mset (k, v) (mset (elems_of (D1 st)))"
    using mset_elems_of_append_elem [OF i(1), of ?b' "(k, v)"] by simp
  have kvs: "mset ?kvs = add_mset (k, v) (mset (key_values st))"
    by (rule mset_update_fresh [OF kv])
  have dist': "distinct (map fst ?kvs)" using dist by (rule distinct_update)
  have look: "map_of ?kvs k = Some v" by (simp add: update_conv)
  have i2: "i < length (D1 ?st2)" using i(1) by simp
  have M2: "1 \<le> ds_M ?st2" using M by simp
  from splitBlock_ok [OF M2 i2] obtain st3 where
    st3: "splitBlock i ?st2 = Inr st3" "mset (elems_of (D1 st3)) = mset (elems_of (D1 ?st2))"
      "D1 st3 \<noteq> []" "D0 st3 = D0 ?st2" "key_values st3 = key_values ?st2"
      "ds_M st3 = ds_M ?st2" "ds_B st3 = ds_B ?st2" by blast
  have good3: "inv_ds X st3 \<and>
           mset (key_values st3) = add_mset (k, v) (mset (key_values st)) \<and>
           mset (all_elements st3) = add_mset (k, v) (mset (all_elements st)) \<and>
           map_of (key_values st3) k = Some v \<and> ds_M st3 = ds_M st \<and> ds_B st3 = ds_B st"
    using st3 el2 kvs dist' look M eq by (simp add: inv_ds_def all_elements_def)
  have good2: "inv_ds X ?st2 \<and>
           mset (key_values ?st2) = add_mset (k, v) (mset (key_values st)) \<and>
           mset (all_elements ?st2) = add_mset (k, v) (mset (all_elements st)) \<and>
           map_of (key_values ?st2) k = Some v \<and> ds_M ?st2 = ds_M st \<and> ds_B ?st2 = ds_B st"
    using el2 kvs dist' look M eq D1 by (simp add: inv_ds_def all_elements_def)
  have "insert_fresh k v st = (if length (elements ?b') > ds_M ?st2 then splitBlock i ?st2 else Inr ?st2)"
    using i(2) by (simp add: insert_fresh_def Let_def)
  with st3(1) good3 good2 show ?thesis by (cases "length (elements ?b') > ds_M ?st2") auto
qed


lemma insert_ds_ok:
  assumes inv: "inv_ds X st" and X: "k \<notin> fst ` set_mset X"
  shows "\<exists>st'. insert_ds k v st = Inr st' \<and> inv_ds X st' \<and> ds_M st' = ds_M st \<and> ds_B st' = ds_B st"
proof (cases "map_of (key_values st) k")
  case None
  with insert_fresh_ok [OF inv None, of v] show ?thesis by (auto simp: insert_ds_def)
next
  case (Some old)
  show ?thesis
  proof (cases "v < old")
    case False
    with Some inv show ?thesis by (simp add: insert_ds_def)
  next
    case True
    from removeKey_inv [OF inv Some X] have
      r: "inv_ds X (removeKey k st)" "map_of (key_values (removeKey k st)) k = None" by auto
    from insert_fresh_ok [OF r, of v] Some True show ?thesis
      by (auto simp: insert_ds_def)
  qed
qed

lemma insert_ds_replace:
  assumes wf: "wf_ds st" and kv: "map_of (key_values st) k = Some old" and lt: "v < old"
  shows "\<exists>st'. insert_ds k v st = Inr st' \<and> wf_ds st' \<and> map_of (key_values st') k = Some v \<and>
           mset (all_elements st') = add_mset (k, v) (mset (all_elements st) - {#(k, old)#}) \<and>
           mset (key_values st') = add_mset (k, v) (mset (key_values st) - {#(k, old)#})"
proof -
  from wf have inv: "inv_ds {#} st" by (simp add: wf_ds_inv)
  from removeKey_inv [OF inv kv] have
    r: "inv_ds {#} (removeKey k st)" "map_of (key_values (removeKey k st)) k = None"
    and m: "mset (key_values (removeKey k st)) = mset (key_values st) - {#(k, old)#}"
       "mset (all_elements (removeKey k st)) = mset (all_elements st) - {#(k, old)#}"
    by auto
  from insert_fresh_ok [OF r, of v] m kv lt show ?thesis
    by (auto simp: insert_ds_def wf_ds_inv)
qed


lemma distinct_fold_unique_step:
  "distinct (map fst acc) \<Longrightarrow> distinct (map fst (fold unique_step items acc))"
  by (induction items arbitrary: acc)
    (auto simp: unique_step_def distinct_update split: option.splits)

lemma distinct_unique_items: "distinct (map fst (unique_items items))"
proof -
  have "mset (map fst (unique_items items)) = mset (map fst (fold unique_step items []))"
    by (simp add: unique_items_def)
  moreover have "distinct (map fst (fold unique_step items []))"
    by (rule distinct_fold_unique_step) simp
  ultimately show ?thesis by (metis mset_eq_imp_distinct_iff)
qed

lemma check_existing_inv:
  assumes inv: "inv_ds (mset to_add) st" and k: "fst kv \<notin> fst ` set to_add"
  shows "inv_ds (mset (fst (check_existing kv (to_add, st)))) (snd (check_existing kv (to_add, st))) \<and>
         set (fst (check_existing kv (to_add, st))) \<subseteq> insert kv (set to_add) \<and>
         ds_M (snd (check_existing kv (to_add, st))) = ds_M st \<and>
         ds_B (snd (check_existing kv (to_add, st))) = ds_B st"
proof -
  have add: "inv_ds (mset (to_add @ [kv])) (s\<lparr>key_values := AList.update (fst kv) (snd kv) (key_values s)\<rparr>)"
    if "inv_ds (mset to_add) s" "map_of (key_values s) (fst kv) = None" for s
    using that mset_update_fresh [of "key_values s" "fst kv" "snd kv"]
    by (simp add: inv_ds_def all_elements_def distinct_update)
  show ?thesis
  proof (cases "map_of (key_values st) (fst kv)")
    case None
    with add [OF inv None] show ?thesis by (simp add: check_existing_def Let_def)
  next
    case (Some old)
    show ?thesis
    proof (cases "snd kv < old")
      case False
      with Some inv show ?thesis by (auto simp: check_existing_def Let_def)
    next
      case True
      from k have "fst kv \<notin> fst ` set_mset (mset to_add)" by simp
      from removeKey_inv [OF inv Some this] have
        "inv_ds (mset to_add) (removeKey (fst kv) st)"
        "map_of (key_values (removeKey (fst kv) st)) (fst kv) = None" by auto
      from add [OF this] Some True show ?thesis by (simp add: check_existing_def Let_def)
    qed
  qed
qed

lemma fold_check_existing_inv:
  assumes "distinct (map fst items)" and "inv_ds (mset to_add) st"
    and "fst ` set to_add \<inter> fst ` set items = {}"
  shows "inv_ds (mset (fst (fold check_existing items (to_add, st))))
           (snd (fold check_existing items (to_add, st))) \<and>
         ds_M (snd (fold check_existing items (to_add, st))) = ds_M st \<and>
         ds_B (snd (fold check_existing items (to_add, st))) = ds_B st"
  using assms
proof (induction items arbitrary: to_add st)
  case Nil
  then show ?case by simp
next
  case (Cons kv items)
  let ?r = "check_existing kv (to_add, st)"
  from Cons.prems(3) have k: "fst kv \<notin> fst ` set to_add" by auto
  from check_existing_inv [OF Cons.prems(2) k] have
    inv': "inv_ds (mset (fst ?r)) (snd ?r)" and sub: "set (fst ?r) \<subseteq> insert kv (set to_add)"
    and f: "ds_M (snd ?r) = ds_M st" "ds_B (snd ?r) = ds_B st" by auto
  from Cons.prems(1) have d: "distinct (map fst items)" and nk: "fst kv \<notin> fst ` set items"
    by auto
  from sub Cons.prems(3) nk have disj: "fst ` set (fst ?r) \<inter> fst ` set items = {}"
    by (auto 4 3)
  from Cons.IH [OF d, of "fst ?r" "snd ?r"] inv' disj f show ?case by simp
qed

lemma elements_mk_block [simp]: "elements (mk_block es) = es"
  by (simp add: mk_block_def)

lemma elems_of_chunks: "0 < p \<Longrightarrow> elems_of (chunks p xs) = xs"
proof (induction p xs rule: chunks.induct)
  case (1 per_block xs)
  then show ?case by (subst chunks.simps) auto
qed

lemma per_block_pos: "0 < (L::nat) \<Longrightarrow> 0 < nb \<Longrightarrow> 0 < (L + nb - 1) div nb"
  by (simp add: div_greater_zero_iff)

lemma batchPrepend_wf:
  assumes wf: "wf_ds st" and res: "batchPrepend items st = Inr st'"
  shows "wf_ds st' \<and> ds_M st' = ds_M st \<and> ds_B st' = ds_B st"
proof (cases "items = []")
  case True
  with res wf show ?thesis by (simp add: batchPrepend_def)
next
  case False
  let ?r = "fold check_existing (unique_items items) ([], st)"
  from wf have "inv_ds (mset []) st" by (simp add: wf_ds_inv)
  from fold_check_existing_inv [OF distinct_unique_items this] have
    inv: "inv_ds (mset (fst ?r)) (snd ?r)" and f: "ds_M (snd ?r) = ds_M st" "ds_B (snd ?r) = ds_B st"
    by auto
  show ?thesis
  proof (cases "fst ?r = []")
    case True
    with res False inv f show ?thesis by (simp add: batchPrepend_def Let_def wf_ds_inv)
  next
    case ne: False
    let ?sorted = "sort_by_value (fst ?r)"
    have base: "wf_ds ((snd ?r)\<lparr>D0 := bs @ D0 (snd ?r)\<rparr>)" if "elems_of bs = ?sorted" for bs
      using inv that by (simp add: wf_ds_def inv_ds_def all_elements_def ac_simps)
    show ?thesis
    proof (cases "length ?sorted \<le> ds_M (snd ?r)")
      case True
      with res False ne have "st' = (snd ?r)\<lparr>D0 := [mk_block ?sorted] @ D0 (snd ?r)\<rparr>"
        by (simp add: batchPrepend_def Let_def)
      with base [of "[mk_block ?sorted]"] f show ?thesis by simp
    next
      case big: False
      let ?h = "ds_M (snd ?r) div 2"
      let ?nb = "(length ?sorted + ?h - 1) div ?h"
      let ?pb = "(length ?sorted + ?nb - 1) div ?nb"
      from res False ne big have h: "?h \<noteq> 0" and nb: "?nb \<noteq> 0"
        and st': "st' = (snd ?r)\<lparr>D0 := chunks ?pb ?sorted @ D0 (snd ?r)\<rparr>"
        by (auto simp: batchPrepend_def Let_def split: if_splits)
      from ne have len: "0 < length ?sorted" by simp
      from nb have "0 < ?nb" by simp
      then have "0 < ?pb" by (rule per_block_pos [OF len])
      from base [OF elems_of_chunks [OF this]] st' f show ?thesis by simp
    qed
  qed
qed

lemma removeKey_wf: "wf_ds st \<Longrightarrow> wf_ds (removeKey k st)"
  using removeKey_inv [of "{#}" st k] removeKey_absent [of st k]
  by (cases "map_of (key_values st) k") (auto simp: wf_ds_inv)

lemma fold_removeKey_wf: "wf_ds st \<Longrightarrow> wf_ds (fold removeKey ks st)"
  by (induction ks arbitrary: st) (auto intro: removeKey_wf)

lemma pull_wf: "wf_ds st \<Longrightarrow> wf_ds (snd (pull st))"
  by (simp add: pull_def Let_def fold_removeKey_wf)

lemma initialize_wf: "wf_ds (initialize m b max_n)"
  by (simp add: wf_ds_def initialize_def all_elements_def)

lemma insert_ds_wf: "wf_ds st \<Longrightarrow> insert_ds k v st = Inr st' \<Longrightarrow> wf_ds st'"
  using insert_ds_ok [of "{#}" st k v] by (auto simp: wf_ds_inv)


lemma reachable_wf: "reachable_ds st \<Longrightarrow> wf_ds st"
  by (induction rule: reachable_ds.induct)
    (auto intro: initialize_wf insert_ds_wf pull_wf dest: batchPrepend_wf)

lemma filter_key_distinct:
  "distinct (map fst al) \<Longrightarrow> map_of al k = Some v \<Longrightarrow>
     filter_mset (\<lambda>e. fst e = k) (mset al) = {#(k, v)#}"
proof (induction al)
  case Nil
  then show ?case by simp
next
  case (Cons p al)
  show ?case
  proof (cases "fst p = k")
    case True
    with Cons.prems have "p = (k, v)" by (cases p) auto
    moreover from True Cons.prems have "k \<notin> fst ` set al" by simp
    then have "\<forall>e\<in>set al. fst e \<noteq> k" by (metis image_eqI)
    then have "filter_mset (\<lambda>e. fst e = k) (mset al) = {#}"
      by auto
    ultimately show ?thesis by simp
  next
    case False
    with Cons.prems Cons.IH show ?thesis by (cases p) auto
  qed
qed

lemma wf_filter_key:
  assumes "wf_ds st" and "map_of (key_values st) k = Some v"
  shows "filter (\<lambda>e. fst e = k) (all_elements st) = [(k, v)]"
proof -
  from assms have "mset (filter (\<lambda>e. fst e = k) (all_elements st)) = {#(k, v)#}"
    by (simp add: wf_ds_def filter_key_distinct)
  then show ?thesis by (metis mset_single_iff_right mset.simps(1) mset.simps(2)) 
qed

text \<open>
  Claim C8.  In a reachable workspace, re-inserting a present key with a value that is not
  smaller returns the workspace as it is; with a smaller value the call returns, the index
  maps the key to the new value, the blocks hold the key exactly once, with the new value,
  and blocks and index have lost the old entry and gained the new one.
\<close>

theorem insert_present_key:
  "reachable_ds st \<Longrightarrow> map_of (key_values st) k = Some old \<Longrightarrow>
     (old \<le> v \<longrightarrow> insert_ds k v st = Inr st) \<and>
     (v < old \<longrightarrow>
        (\<exists>st'. insert_ds k v st = Inr st' \<and> map_of (key_values st') k = Some v \<and>
           filter (\<lambda>e. fst e = k) (all_elements st') = [(k, v)] \<and>
           mset (all_elements st') = add_mset (k, v) (mset (all_elements st) - {#(k, old)#}) \<and>
           mset (key_values st') = add_mset (k, v) (mset (key_values st) - {#(k, old)#})))"
proof (intro conjI impI)
  assume "map_of (key_values st) k = Some old" and "old \<le> v"
  then show "insert_ds k v st = Inr st" by (auto simp: insert_ds_def)
next
  assume r: "reachable_ds st" and kv: "map_of (key_values st) k = Some old" and lt: "v < old"
  from insert_ds_replace [OF reachable_wf [OF r] kv lt] obtain st' where
    st': "insert_ds k v st = Inr st'" "wf_ds st'" "map_of (key_values st') k = Some v"
      "mset (all_elements st') = add_mset (k, v) (mset (all_elements st) - {#(k, old)#})"
      "mset (key_values st') = add_mset (k, v) (mset (key_values st) - {#(k, old)#})"
    by blast
  from wf_filter_key [OF st'(2,3)] st' show
    "\<exists>st'. insert_ds k v st = Inr st' \<and> map_of (key_values st') k = Some v \<and>
           filter (\<lambda>e. fst e = k) (all_elements st') = [(k, v)] \<and>
           mset (all_elements st') = add_mset (k, v) (mset (all_elements st) - {#(k, old)#}) \<and>
           mset (key_values st') = add_mset (k, v) (mset (key_values st) - {#(k, old)#})"
    by blast
qed

lemma ds_one_key_reachable: "reachable_ds ds_one_key"
  using reach_insert [OF reach_initialize ds_one_key_built] .

lemma ds_one_key_lowered_built: "insert_ds 0 (Fin 5) ds_one_key = Inr ds_one_key_lowered"
  unfolding ds_one_key_def ds_one_key_lowered_def by code_simp

theorem insert_present_key_witness:
  "reachable_ds ds_one_key \<and> map_of (key_values ds_one_key) 0 = Some (Fin 10) \<and>
   Fin 10 \<le> Fin 20 \<and> insert_ds 0 (Fin 20) ds_one_key = Inr ds_one_key \<and>
   Fin 5 < Fin 10 \<and> insert_ds 0 (Fin 5) ds_one_key = Inr ds_one_key_lowered \<and>
   map_of (key_values ds_one_key_lowered) 0 = Some (Fin 5) \<and>
   filter (\<lambda>e. fst e = 0) (all_elements ds_one_key_lowered) = [(0, Fin 5)]"
proof -
  have kv: "map_of (key_values ds_one_key) 0 = Some (Fin 10)"
    by (simp add: ds_one_key_def)
  from insert_present_key [OF ds_one_key_reachable kv, of "Fin 20"]
    insert_present_key [OF ds_one_key_reachable kv, of "Fin 5"]
  show ?thesis
    using ds_one_key_reachable kv by (simp add: ds_one_key_lowered_built)
qed

text \<open>
  Claim C2 says that every operation of the block data structure completes for every
  block capacity \<open>M \<ge> 1\<close>.  With \<open>M = 1\<close> the expression \<^verbatim>\<open>M / 2\<close> in \<^verbatim>\<open>batchPrepend\<close> is
  \<open>0\<close>, and a batch of two new keys takes the branch that divides by it.
\<close>

theorem batchPrepend_M1_division_by_zero:
  "batchPrepend [(1, Fin 1), (2, Fin 2)] (initialize 1 (Fin 100) 0) = Inl DivisionByZero"
  by code_simp

text \<open>
  Claim C3 is the contract of \<^verbatim>\<open>pull\<close>: the returned keys have values below the separator
  and every key left behind has a value at or above it.  When more than \<open>M\<close> candidates
  were gathered, \<^verbatim>\<open>pull\<close> takes the separator from the candidates alone and does not look
  at the blocks it did not gather.  In \<open>ds_three_blocks\<close> (all values distinct and below
  \<open>B\<close>, the batch below everything present) it gathers the first two blocks of \<open>D0\<close> and
  the block of \<open>D1\<close>, returns the keys 1 and 2 with separator 10, and leaves key 3 with
  value 3 in the workspace.
\<close>

lemma ds_three_blocks_built:
  "(case insert_ds 4 (Fin 10) (initialize 2 (Fin 100) 0) of
      Inl e \<Rightarrow> Inl e
    | Inr st \<Rightarrow> batchPrepend [(1, Fin 1), (2, Fin 2), (3, Fin 3)] st) = Inr ds_three_blocks"
  unfolding ds_three_blocks_def by code_simp

theorem pull_separator_above_remaining_key:
  "fst (pull ds_three_blocks) = ([1, 2], Fin 10) \<and>
   getValue (snd (pull ds_three_blocks)) 3 = Fin 3 \<and> Fin 3 < Fin 10"
  unfolding ds_three_blocks_def by code_simp

section \<open>Properties of the solver\<close>

text \<open>
  Claim C10.  On an empty frontier \<^verbatim>\<open>baseCase\<close> returns the bound it was given and the
  empty set, whatever the fuel, and the arrays \<open>d_hat\<close>, \<open>pred\<close> and \<open>complete\<close> (the
  whole state) are as before.
\<close>

theorem baseCase_empty_frontier:
  "baseCase fuel cfg B [] st = Some ((B, []), st)"
  by (simp add: baseCase_def)

text \<open>
  Claim C1 says that \<^verbatim>\<open>solve\<close> returns the shortest-path distances for every graph with
  non-negative weights.  On the star graph it does not return: at level 1 the block size
  is \<open>M = 1\<close>, the base case hands back two completed vertices and the bound \<open>2\<close>, the
  eight arcs to the vertices \<open>2..9\<close> go into the batch \<open>K\<close>, and \<^verbatim>\<open>batchPrepend\<close>
  divides by \<^verbatim>\<open>M / 2 = 0\<close>.
\<close>

theorem solve_star_division_by_zero:
  "solve 20 star_solver 0 = Some (Inl DivisionByZero)"
  by code_simp

subsection \<open>Writes to the distance array\<close>

lemma le_PInf [simp]: "x \<le> PInf"
  by (cases x) auto

lemma PInf_le [simp]: "PInf \<le> x \<longleftrightarrow> x = PInf"
  by (cases x) auto

lemma solve_relax_le:
  "i < length (d_hat st) \<Longrightarrow> d_hat (solve_relax s e st) ! i \<le> d_hat st ! i"
  by (cases "i = fst e") (auto simp: solve_relax_def Let_def)

lemma fp_relax_le:
  "i < length (d_hat st) \<Longrightarrow> d_hat (fst (fp_relax B u e (st, Wi))) ! i \<le> d_hat st ! i"
  by (cases "i = fst e") (simp_all add: fp_relax_def Let_def)

lemma bc_relax_le:
  "i < length (d_hat st) \<Longrightarrow> d_hat (fst (bc_relax B u e (st, H))) ! i \<le> d_hat st ! i"
  by (cases "i = fst e") (simp_all add: bc_relax_def Let_def)

lemma bm_relax_le:
  "i < length (d_hat st) \<Longrightarrow> bm_relax B Bi B_prime_i u e (Inr (st, D, K)) = Inr (st', D', K')
     \<Longrightarrow> d_hat st' ! i \<le> d_hat st ! i"
  by (cases "i = fst e") (auto simp: bm_relax_def Let_def split: if_splits sum.splits)

text \<open>
  Claim C4.  The distance array is written in four places after its initialisation: the
  seed relaxation of \<^verbatim>\<open>solve\<close>, and the edge relaxations of \<^verbatim>\<open>findPivots\<close>, \<^verbatim>\<open>baseCase\<close>
  and \<^verbatim>\<open>BMSSP\<close>.  Each of the four loop bodies writes at most one entry, and whatever
  the arc, the bounds and the state, no entry of the array is larger after the body than
  before it.  (The one other write, \<^verbatim>\<open>d_hat[source] = 0.0\<close>, replaces the \<open>PInf\<close> that
  \<^verbatim>\<open>assign\<close> has just stored.)
\<close>

theorem d_hat_write_non_increasing:
  "i < length (d_hat st) \<longrightarrow>
     d_hat (solve_relax s e st) ! i \<le> d_hat st ! i \<and>
     d_hat (fst (fp_relax B u e (st, Wi))) ! i \<le> d_hat st ! i \<and>
     d_hat (fst (bc_relax B u e (st, H))) ! i \<le> d_hat st ! i \<and>
     (\<forall>st' D' K'. bm_relax B Bi B_prime_i u e (Inr (st, D, K)) = Inr (st', D', K')
        \<longrightarrow> d_hat st' ! i \<le> d_hat st ! i)"
proof (intro impI conjI allI)
  fix st' D' K'
  assume "i < length (d_hat st)"
    and "bm_relax B Bi B_prime_i u e (Inr (st, D, K)) = Inr (st', D', K')"
  then show "d_hat st' ! i \<le> d_hat st ! i" by (rule bm_relax_le)
qed (simp_all add: solve_relax_le fp_relax_le bc_relax_le)

theorem d_hat_write_non_increasing_witness:
  "1 < length (d_hat two_vertex_state) \<and> d_hat two_vertex_state ! 1 = Fin 5 \<and>
   d_hat (solve_relax 0 (1, 2) two_vertex_state) ! 1 = Fin 2 \<and>
   d_hat (solve_relax 0 (1, 2) two_vertex_state) ! 1 \<le> d_hat two_vertex_state ! 1 \<and>
   d_hat (fst (fp_relax PInf 0 (1, 2) (two_vertex_state, []))) ! 1 \<le> d_hat two_vertex_state ! 1 \<and>
   d_hat (fst (bc_relax PInf 0 (1, 2) (two_vertex_state, []))) ! 1 \<le> d_hat two_vertex_state ! 1 \<and>
   bm_relax PInf PInf (Fin 0) 0 (1, 2) (Inr (two_vertex_state, ds_one_key, [])) =
     Inr (two_vertex_state\<lparr>d_hat := [Fin 0, Fin 2], pred := [None, Some 0],
            relaxation_count := 1\<rparr>, ds_one_key, [(1, Fin 2)]) \<and>
   d_hat (two_vertex_state\<lparr>d_hat := [Fin 0, Fin 2], pred := [None, Some 0],
            relaxation_count := 1\<rparr>) ! 1 \<le> d_hat two_vertex_state ! 1"
  using d_hat_write_non_increasing
    [of 1 two_vertex_state 0 "(1, 2)" PInf 0 "[]" "[]" PInf "Fin 0" ds_one_key "[]"]
  by (simp add: two_vertex_state_def solve_relax_def bm_relax_def Let_def)

subsection \<open>The base case\<close>

lemma wf_graph_arc:
  "wf_graph g \<Longrightarrow> u < g_n g \<Longrightarrow> e \<in> set (g_adj g ! u) \<Longrightarrow> fst e < g_n g \<and> 0 \<le> snd e"
  by (auto simp: wf_graph_def list_all_iff)

lemma addw_nonneg: "Fin 0 \<le> d \<Longrightarrow> 0 \<le> w \<Longrightarrow> Fin 0 \<le> addw d w"
  by (cases d) auto




lemma set_set_insert [simp]: "set (set_insert x xs) = insert x (set xs)"
  by (auto simp: set_insert_def set_insort_key)



lemma set_insert_not_Nil [simp]: "set_insert x xs \<noteq> []"
  by (metis empty_iff insertI1 set_set_insert list.set(1))

lemma wf_graph_adj:
  "wf_graph g \<Longrightarrow> u < g_n g \<Longrightarrow> list_all (\<lambda>e. fst e < g_n g \<and> 0 \<le> snd e) (g_adj g ! u)"
  by (simp add: wf_graph_def list_all_length)







lemma diamond_start_init: "solve_init diamond_solver 0 = diamond_start"
  unfolding diamond_solver_def diamond_start_def by code_simp






lemma zero_arc_target: "wf_graph g \<Longrightarrow> zero_arc g u v \<Longrightarrow> u < g_n g \<and> v < g_n g"
  using wf_graph_arc [of g u "(v, 0)"] by (auto simp: zero_arc_def)



















lemma zero_cycle_start_init: "solve_init zero_cycle_solver 0 = zero_cycle_start"
  unfolding zero_cycle_solver_def zero_cycle_start_def by code_simp


subsection \<open>Every change of the arrays is a relaxation step\<close>

lemma relax_steps_refl [simp]: "relax_steps g X st st"
  by (simp add: relax_steps_def)

lemma relax_steps_trans:
  "relax_steps g X a b \<Longrightarrow> relax_steps g X b c \<Longrightarrow> relax_steps g X a c"
  by (simp add: relax_steps_def)

lemma relax_steps_step: "relax_step g X a b \<Longrightarrow> relax_steps g X a b"
  by (simp add: relax_steps_def)

lemma relax_steps_count: "relax_steps g X st (st\<lparr>relaxation_count := c\<rparr>)"
  by (rule relax_steps_step) (rule rs_count)

lemma relax_steps_complete: "relax_steps g X st (st\<lparr>complete := c\<rparr>)"
  by (rule relax_steps_step) (rule rs_complete)

lemma relax_steps_write:
  assumes "u \<in> X" "e \<in> set (g_adj g ! u)"
    and "addw (d_hat st ! u) (snd e) \<le> d_hat st ! fst e"
  shows "relax_steps g X st
           (st\<lparr>relaxation_count := c,
               d_hat := (d_hat st)[fst e := addw (d_hat st ! u) (snd e)],
               pred := (pred st)[fst e := Some u]\<rparr>)"
proof -
  let ?s1 = "st\<lparr>relaxation_count := c\<rparr>"
  have "relax_step g X ?s1
          (?s1\<lparr>d_hat := (d_hat ?s1)[fst e := addw (d_hat ?s1 ! u) (snd e)],
               pred := (pred ?s1)[fst e := Some u]\<rparr>)"
    using assms by (intro rs_relax) simp_all
  then have "relax_steps g X ?s1
          (st\<lparr>relaxation_count := c,
               d_hat := (d_hat st)[fst e := addw (d_hat st ! u) (snd e)],
               pred := (pred st)[fst e := Some u]\<rparr>)"
    by (simp add: relax_steps_step)
  with relax_steps_count [of g X st c] show ?thesis by (rule relax_steps_trans)
qed

subsection \<open>Steps of \<^verbatim>\<open>findPivots\<close>\<close>

lemma fp_relax_steps:
  assumes "u \<in> X" "e \<in> set (g_adj g ! u)"
  shows "relax_steps g X st (fst (fp_relax B u e (st, Wi))) \<and>
         set (snd (fp_relax B u e (st, Wi))) \<subseteq> insert (fst e) (set Wi)"
  using relax_steps_write [OF assms, of st] relax_steps_count [of g X st]
  by (auto simp: fp_relax_def Let_def)

lemma fold_fp_relax_steps:
  assumes "u \<in> X" "set es \<subseteq> set (g_adj g ! u)"
  shows "relax_steps g X st (fst (fold (fp_relax B u) es (st, Wi))) \<and>
         set (snd (fold (fp_relax B u) es (st, Wi))) \<subseteq> fst ` set es \<union> set Wi"
  using assms(2)
proof (induction es arbitrary: st Wi)
  case Nil
  then show ?case by simp
next
  case (Cons e es)
  let ?r = "fp_relax B u e (st, Wi)"
  from Cons.prems have e: "e \<in> set (g_adj g ! u)" and es: "set es \<subseteq> set (g_adj g ! u)" by auto
  from fp_relax_steps [OF assms(1) e, where st = st and B = B and Wi = Wi] have
    a: "relax_steps g X st (fst ?r)" "set (snd ?r) \<subseteq> insert (fst e) (set Wi)" by auto
  from Cons.IH [OF es, where st = "fst ?r" and Wi = "snd ?r"] have
    b: "relax_steps g X (fst ?r) (fst (fold (fp_relax B u) es ?r))"
       "set (snd (fold (fp_relax B u) es ?r)) \<subseteq> fst ` set es \<union> set (snd ?r)" by auto
  from a b show ?case by (auto intro: relax_steps_trans)
qed

lemma closed_under_arcs_fst:
  "closed_under_arcs g X \<Longrightarrow> u \<in> X \<Longrightarrow> fst ` set (g_adj g ! u) \<subseteq> X"
  by (auto simp: closed_under_arcs_def)

lemma fp_round_fold_steps:
  assumes cl: "closed_under_arcs g X"
  shows "set us \<subseteq> X \<Longrightarrow> set Wi \<subseteq> X \<Longrightarrow>
     relax_steps g X st (fst (fold (\<lambda>u acc. fold (fp_relax B u) (g_adj g ! u) acc) us (st, Wi))) \<and>
     set (snd (fold (\<lambda>u acc. fold (fp_relax B u) (g_adj g ! u) acc) us (st, Wi))) \<subseteq> X"
proof (induction us arbitrary: st Wi)
  case Nil
  then show ?case by simp
next
  case (Cons u us)
  let ?r = "fold (fp_relax B u) (g_adj g ! u) (st, Wi)"
  from Cons.prems have u: "u \<in> X" and us: "set us \<subseteq> X" by auto
  from fold_fp_relax_steps [OF u subset_refl, where st = st and B = B and Wi = Wi] have
    a: "relax_steps g X st (fst ?r)" "set (snd ?r) \<subseteq> fst ` set (g_adj g ! u) \<union> set Wi" by auto
  from a(2) closed_under_arcs_fst [OF cl u] Cons.prems(2) have w: "set (snd ?r) \<subseteq> X" by auto
  from Cons.IH [OF us w, where st = "fst ?r"] have
    "relax_steps g X (fst ?r) (fst (fold (\<lambda>u acc. fold (fp_relax B u) (g_adj g ! u) acc) us ?r))"
    "set (snd (fold (\<lambda>u acc. fold (fp_relax B u) (g_adj g ! u) acc) us ?r)) \<subseteq> X"
    by auto
  with a(1) show ?case by (auto intro: relax_steps_trans)
qed

lemma fp_round_steps:
  assumes "closed_under_arcs (graph cfg) X" "set Wi_prev \<subseteq> X"
  shows "relax_steps (graph cfg) X st (fst (fp_round cfg B Wi_prev st)) \<and>
         set (snd (fp_round cfg B Wi_prev st)) \<subseteq> X"
  unfolding fp_round_def using fp_round_fold_steps [OF assms, where Wi = "[]" and st = st and B = B] by simp

lemma set_fold_set_insert [simp]: "set (fold set_insert xs ys) = set xs \<union> set ys"
  by (induction xs arbitrary: ys) auto

lemma fp_rounds_steps:
  assumes cl: "closed_under_arcs (graph cfg) X"
  shows "set W \<subseteq> X \<Longrightarrow> set Wi_prev \<subseteq> X \<Longrightarrow>
     relax_steps (graph cfg) X st (snd (snd (fp_rounds cfg B S i W Wi_prev st))) \<and>
     set (fst (snd (fp_rounds cfg B S i W Wi_prev st))) \<subseteq> X"
proof (induction i arbitrary: W Wi_prev st)
  case 0
  then show ?case by simp
next
  case (Suc i)
  let ?r = "fp_round cfg B Wi_prev st"
  let ?W1 = "fold set_insert (snd ?r) W"
  from fp_round_steps [OF cl Suc.prems(2), where st = st and B = B] have
    a: "relax_steps (graph cfg) X st (fst ?r)" "set (snd ?r) \<subseteq> X" by auto
  with Suc.prems(1) have W1: "set ?W1 \<subseteq> X" by simp
  show ?case
  proof (cases "length ?W1 > sp_k cfg * length S")
    case True
    with a W1 show ?thesis by (simp add: Let_def)
  next
    case False
    from Suc.IH [OF W1 a(2), where st = "fst ?r"] a(1) False show ?thesis
      by (auto simp: Let_def intro: relax_steps_trans)
  qed
qed

lemma findPivots_steps:
  assumes cl: "closed_under_arcs (graph cfg) X" and S: "set S \<subseteq> X"
    and res: "findPivots fuel cfg B S st = Some ((P, W), st')"
  shows "relax_steps (graph cfg) X st st' \<and> set W \<subseteq> X \<and> set P \<subseteq> set S \<and> (S \<noteq> [] \<longrightarrow> P \<noteq> [])"
proof -
  let ?r = "fp_rounds cfg B S (sp_k cfg) S S st"
  from fp_rounds_steps [OF cl S S, where st = st and B = B and S = S and i = "sp_k cfg"] have
    a: "relax_steps (graph cfg) X st (snd (snd ?r))" "set (fst (snd ?r)) \<subseteq> X" by auto
  show ?thesis
  proof (cases "fst ?r")
    case True
    with res a show ?thesis by (auto simp: findPivots_def Let_def)
  next
    case False
    with res have W: "W = fst (snd ?r)"
      and st': "st' = (snd (snd ?r))\<lparr>complete := fold (\<lambda>v c. c[v := True]) W (complete (snd (snd ?r)))\<rparr>"
      and P: "set P \<subseteq> set S" "S \<noteq> [] \<longrightarrow> P \<noteq> []"
      by (auto simp: findPivots_def Let_def split: option.splits if_splits)
    from a(1) st' have "relax_steps (graph cfg) X st st'"
      by (auto intro: relax_steps_trans relax_steps_complete)
    with a(2) W P show ?thesis by simp
  qed
qed

subsection \<open>Steps of \<^verbatim>\<open>baseCase\<close>\<close>

lemma bc_relax_steps:
  assumes "u \<in> X" "e \<in> set (g_adj g ! u)"
  shows "relax_steps g X st (fst (bc_relax B u e (st, H))) \<and>
         snd ` set (snd (bc_relax B u e (st, H))) \<subseteq> insert (fst e) (snd ` set H)"
  using relax_steps_write [OF assms, of st] relax_steps_count [of g X st]
  by (auto simp: bc_relax_def Let_def set_insort_key)

lemma fold_bc_relax_steps:
  assumes "u \<in> X" "set es \<subseteq> set (g_adj g ! u)"
  shows "relax_steps g X st (fst (fold (bc_relax B u) es (st, H))) \<and>
         snd ` set (snd (fold (bc_relax B u) es (st, H))) \<subseteq> fst ` set es \<union> snd ` set H"
  using assms(2)
proof (induction es arbitrary: st H)
  case Nil
  then show ?case by simp
next
  case (Cons e es)
  let ?r = "bc_relax B u e (st, H)"
  from Cons.prems have e: "e \<in> set (g_adj g ! u)" and es: "set es \<subseteq> set (g_adj g ! u)" by auto
  from bc_relax_steps [OF assms(1) e, where st = st and B = B and H = H] have
    a: "relax_steps g X st (fst ?r)" "snd ` set (snd ?r) \<subseteq> insert (fst e) (snd ` set H)" by auto
  from Cons.IH [OF es, where st = "fst ?r" and H = "snd ?r"] have
    b: "relax_steps g X (fst ?r) (fst (fold (bc_relax B u) es ?r))"
       "snd ` set (snd (fold (bc_relax B u) es ?r)) \<subseteq> fst ` set es \<union> snd ` set (snd ?r)" by auto
  from a(1) b(1) have "relax_steps g X st (fst (fold (bc_relax B u) es ?r))"
    by (rule relax_steps_trans)
  moreover from a(2) b(2) have
    "snd ` set (snd (fold (bc_relax B u) es ?r)) \<subseteq> insert (fst e) (fst ` set es) \<union> snd ` set H"
    by blast
  ultimately show ?case by simp
qed

lemma bc_loop_steps:
  assumes cl: "closed_under_arcs (graph cfg) X"
  shows "set U0 \<subseteq> X \<Longrightarrow> snd ` set H \<subseteq> X \<Longrightarrow>
         bc_loop fuel cfg B U0 H st = Some (U0', H', st') \<Longrightarrow>
         relax_steps (graph cfg) X st st' \<and> set U0' \<subseteq> X"
proof (induction fuel arbitrary: U0 H st)
  case 0
  then show ?case by (auto split: if_splits)
next
  case (Suc f)
  show ?case
  proof (cases "H \<noteq> [] \<and> length U0 < sp_k cfg + 1")
    case False
    with Suc.prems show ?thesis by auto
  next
    case True
    then obtain h H1 where H: "H = h # H1" by (cases H) auto
    let ?u = "snd h"
    from Suc.prems(2) H have u: "?u \<in> X" and H1: "snd ` set H1 \<subseteq> X" by auto
    show ?thesis
    proof (cases "fst h > d_hat st ! ?u")
      case stale: True
      from Suc.prems(3) True stale H have "bc_loop f cfg B U0 H1 st = Some (U0', H', st')"
        by (simp add: Let_def)
      from Suc.IH [OF Suc.prems(1) H1 this] show ?thesis .
    next
      case fresh: False
      let ?U1 = "set_insert ?u U0"
      let ?st1 = "st\<lparr>complete := (complete st)[?u := True]\<rparr>"
      let ?r = "fold (bc_relax B ?u) (g_adj (graph cfg) ! ?u) (?st1, H1)"
      from fold_bc_relax_steps [OF u subset_refl, where st = ?st1 and B = B and H = H1] have
        r: "relax_steps (graph cfg) X ?st1 (fst ?r)"
           "snd ` set (snd ?r) \<subseteq> fst ` set (g_adj (graph cfg) ! ?u) \<union> snd ` set H1" by auto
      from r(2) closed_under_arcs_fst [OF cl u] H1 have H2: "snd ` set (snd ?r) \<subseteq> X" by blast
      from Suc.prems(1) u have U1: "set ?U1 \<subseteq> X" by simp
      from Suc.prems(3) True fresh H have
        "bc_loop f cfg B ?U1 (snd ?r) (fst ?r) = Some (U0', H', st')"
        by (simp add: Let_def)
      from Suc.IH [OF U1 H2 this] have
        "relax_steps (graph cfg) X (fst ?r) st'" "set U0' \<subseteq> X" by auto
      with r(1) relax_steps_complete [of "graph cfg" X st "(complete st)[?u := True]"]
      show ?thesis by (auto intro: relax_steps_trans)
    qed
  qed
qed

lemma baseCase_steps:
  assumes cl: "closed_under_arcs (graph cfg) X" and S: "set S \<subseteq> X"
    and res: "baseCase fuel cfg B S st = Some ((B', U), st')"
  shows "relax_steps (graph cfg) X st st' \<and> set U \<subseteq> X"
proof (cases "S = []")
  case True
  with res show ?thesis by (simp add: baseCase_def)
next
  case False
  then have x: "hd S \<in> X" using S by (cases S) auto
  from res False obtain U0 H st1 where
    loop: "bc_loop fuel cfg B [hd S] [(d_hat st ! hd S, hd S)] st = Some (U0, H, st1)"
    by (cases "bc_loop fuel cfg B [hd S] [(d_hat st ! hd S, hd S)] st")
      (auto simp: baseCase_def Let_def)
  from bc_loop_steps [OF cl _ _ loop] x have
    a: "relax_steps (graph cfg) X st st1" "set U0 \<subseteq> X" by auto
  from res False loop have "st' = st1" "set U \<subseteq> set U0"
    by (auto simp: baseCase_def Let_def split: if_splits)
  with a show ?thesis by auto
qed

subsection \<open>Keys of the workspace\<close>

lemma key_values_removeKey:
  "key_values (removeKey k D) =
     (case map_of (key_values D) k of None \<Rightarrow> key_values D | Some v \<Rightarrow> AList.delete k (key_values D))"
  by (auto simp: removeKey_def Let_def split: option.splits)

lemma ds_keys_removeKey: "ds_keys (removeKey k D) \<subseteq> ds_keys D"
  using dom_delete_subset [of k "key_values D"]
  by (cases "map_of (key_values D) k") (simp_all add: ds_keys_def key_values_removeKey)

lemma splitBlock_key_values: "splitBlock i D = Inr D' \<Longrightarrow> key_values D' = key_values D"
  by (auto simp: splitBlock_def Let_def split: if_splits)

lemma key_values_insert_fresh:
  "insert_fresh k v D = Inr D' \<Longrightarrow> key_values D' = AList.update k v (key_values D)"
  by (auto simp: insert_fresh_def Let_def split: sum.splits if_splits dest!: splitBlock_key_values)

lemma ds_keys_insert_fresh:
  "insert_fresh k v D = Inr D' \<Longrightarrow> ds_keys D' \<subseteq> insert k (ds_keys D)"
  by (simp add: ds_keys_def key_values_insert_fresh dom_update)

lemma ds_keys_insert_ds:
  assumes "insert_ds k v D = Inr D'"
  shows "ds_keys D' \<subseteq> insert k (ds_keys D)"
proof (cases "map_of (key_values D) k")
  case None
  with assms show ?thesis by (simp add: insert_ds_def ds_keys_insert_fresh)
next
  case (Some old)
  show ?thesis
  proof (cases "v < old")
    case True
    with assms Some have "insert_fresh k v (removeKey k D) = Inr D'" by (simp add: insert_ds_def)
    from ds_keys_insert_fresh [OF this] ds_keys_removeKey [of k D] show ?thesis by blast
  next
    case False
    with assms Some show ?thesis by (auto simp: insert_ds_def)
  qed
qed

lemma keys_fold_unique_step:
  "fst ` set (fold unique_step items acc) \<subseteq> fst ` set items \<union> fst ` set acc"
proof (induction items arbitrary: acc)
  case Nil
  then show ?case by simp
next
  case (Cons kv items)
  have "fst ` set (unique_step kv acc) \<subseteq> insert (fst kv) (fst ` set acc)"
    by (auto simp: unique_step_def dom_update split: option.splits)
  with Cons.IH [of "unique_step kv acc"] show ?case by auto
qed

lemma keys_unique_items: "fst ` set (unique_items items) \<subseteq> fst ` set items"
  using keys_fold_unique_step [of items "[]"] by (simp add: unique_items_def)

lemma key_values_check_existing:
  "key_values (snd (check_existing kv acc)) = key_values (snd acc) \<or>
   key_values (snd (check_existing kv acc)) = AList.update (fst kv) (snd kv) (key_values (snd acc)) \<or>
   key_values (snd (check_existing kv acc)) =
     AList.update (fst kv) (snd kv) (key_values (removeKey (fst kv) (snd acc)))"
  by (simp add: check_existing_def Let_def split: option.splits)

lemma ds_keys_check_existing:
  "ds_keys (snd (check_existing kv acc)) \<subseteq> insert (fst kv) (ds_keys (snd acc))"
proof -
  have a: "fst ` set (AList.update (fst kv) (snd kv) (key_values D)) \<subseteq> insert (fst kv) (ds_keys D)"
    for D by (simp add: dom_update ds_keys_def)
  have b: "fst ` set (AList.update (fst kv) (snd kv) (key_values (removeKey (fst kv) (snd acc))))
          \<subseteq> insert (fst kv) (ds_keys (snd acc))"
    using ds_keys_removeKey [of "fst kv" "snd acc"] a [of "removeKey (fst kv) (snd acc)"] by blast
  have c: "fst ` set (key_values (snd acc)) \<subseteq> insert (fst kv) (ds_keys (snd acc))"
    by (auto simp: ds_keys_def)
  from key_values_check_existing [of kv acc] a [of "snd acc"] b c show ?thesis
    unfolding ds_keys_def by metis
qed

lemma ds_keys_fold_check_existing:
  "ds_keys (snd (fold check_existing items acc)) \<subseteq> fst ` set items \<union> ds_keys (snd acc)"
proof (induction items arbitrary: acc)
  case Nil
  then show ?case by simp
next
  case (Cons kv items)
  from Cons.IH [of "check_existing kv acc"] ds_keys_check_existing [of kv acc]
  show ?case by auto
qed

lemma ds_keys_batchPrepend:
  assumes "batchPrepend items D = Inr D'"
  shows "ds_keys D' \<subseteq> ds_keys D \<union> fst ` set items"
proof -
  let ?r = "fold check_existing (unique_items items) ([], D)"
  from assms have "D' = D \<or> key_values D' = key_values (snd ?r)"
    by (auto simp: batchPrepend_def Let_def split: if_splits)
  moreover have "ds_keys (snd ?r) \<subseteq> fst ` set items \<union> ds_keys D"
    using ds_keys_fold_check_existing [of "unique_items items" "([], D)"] keys_unique_items [of items]
    by auto
  ultimately show ?thesis unfolding ds_keys_def by (metis Un_commute subset_Un_eq sup.cobounded1 sup.coboundedI1 order_refl)
qed

lemma set_collect: "set (collect m cnt bs) \<subseteq> set (elems_of bs)"
  by (induction bs arbitrary: cnt) auto

lemma ds_keys_fold_removeKey: "ds_keys (fold removeKey ks D) \<subseteq> ds_keys D"
proof (induction ks arbitrary: D)
  case Nil
  then show ?case by simp
next
  case (Cons k ks)
  from Cons.IH [of "removeKey k D"] ds_keys_removeKey [of k D] show ?case by auto
qed

lemma wf_ds_keys: "wf_ds D \<Longrightarrow> fst ` set (all_elements D) = ds_keys D"
  by (metis ds_keys_def wf_ds_def set_mset_mset)

lemma pull_keys:
  assumes "wf_ds D"
  shows "set (fst (fst (pull D))) \<subseteq> ds_keys D \<and> ds_keys (snd (pull D)) \<subseteq> ds_keys D"
proof -
  let ?c = "collect (ds_M D) 0 (D0 D) @ collect (ds_M D) 0 (D1 D)"
  have "set ?c \<subseteq> set (all_elements D)"
    using set_collect [of "ds_M D" 0 "D0 D"] set_collect [of "ds_M D" 0 "D1 D"]
    by (auto simp: all_elements_def)
  then have c: "fst ` set ?c \<subseteq> ds_keys D" using wf_ds_keys [OF assms] by blast
  have "set (take n (sort_by_value ?c)) \<subseteq> set ?c" for n
    using set_take_subset [of n "sort_by_value ?c"] by (simp add: sort_by_value_def)
  with c have "fst ` set (take n (sort_by_value ?c)) \<subseteq> ds_keys D" for n by blast
  then show ?thesis
    using ds_keys_fold_removeKey by (auto simp: pull_def Let_def)
qed

subsection \<open>Steps of \<^verbatim>\<open>BMSSP\<close>\<close>

lemma bm_relax_Inl [simp]: "bm_relax B Bi Bp u e (Inl err) = Inl err"
  by (simp add: bm_relax_def)

lemma fold_bm_relax_Inl [simp]: "fold (bm_relax B Bi Bp u) es (Inl err) = Inl err"
  by (induction es) simp_all

lemma bm_relax_ok:
  assumes u: "u \<in> X" and e: "e \<in> set (g_adj g ! u)" and v: "fst e \<in> X"
    and ok: "bm_ok g X st0 a" and res: "bm_relax B Bi Bp u e (Inr a) = Inr a'"
  shows "bm_ok g X st0 a'"
proof -
  obtain st D K where a: "a = (st, D, K)" by (cases a) auto
  let ?st = "st\<lparr>relaxation_count := relaxation_count st + 1\<rparr>"
  from ok a have st: "relax_steps g X st0 st" and D: "wf_ds D" "ds_keys D \<subseteq> X"
    and K: "fst ` set K \<subseteq> X" by (auto simp: bm_ok_def)
  show ?thesis
  proof (cases "addw (d_hat st ! u) (snd e) \<le> d_hat st ! fst e")
    case False
    with res a have "a' = (?st, D, K)" by (auto simp: bm_relax_def Let_def)
    with st D K relax_steps_count [of g X st] show ?thesis
      by (auto simp: bm_ok_def intro: relax_steps_trans)
  next
    case True
    let ?st2 = "st\<lparr>relaxation_count := relaxation_count st + 1,
                    d_hat := (d_hat st)[fst e := addw (d_hat st ! u) (snd e)],
                    pred := (pred st)[fst e := Some u]\<rparr>"
    let ?nd = "addw (d_hat ?st2 ! u) (snd e)"
    from relax_steps_write [OF u e True] st have st2: "relax_steps g X st0 ?st2"
      by (rule relax_steps_trans [rotated])
    show ?thesis
    proof (cases "?nd \<ge> Bi \<and> ?nd < B")
      case ins: True
      with res a True obtain D' where D': "insert_ds (fst e) ?nd D = Inr D'" "a' = (?st2, D', K)"
        by (auto simp: bm_relax_def Let_def split: sum.splits)
      from insert_ds_wf [OF D(1) D'(1)] ds_keys_insert_ds [OF D'(1)] D(2) v
      have "wf_ds D'" "ds_keys D' \<subseteq> X" by auto
      with st2 K D'(2) show ?thesis by (simp add: bm_ok_def)
    next
      case False
      with res a True have "a' = (?st2, D, K @ [(fst e, ?nd)]) \<or> a' = (?st2, D, K)"
        by (auto simp: bm_relax_def Let_def split: if_splits)
      with st2 D K v show ?thesis unfolding bm_ok_def by (elim disjE) simp_all
    qed
  qed
qed

lemma fold_bm_relax_ok:
  assumes u: "u \<in> X" and cl: "closed_under_arcs g X"
  shows "set es \<subseteq> set (g_adj g ! u) \<Longrightarrow> bm_ok g X st0 a \<Longrightarrow>
         fold (bm_relax B Bi Bp u) es (Inr a) = Inr a' \<Longrightarrow> bm_ok g X st0 a'"
proof (induction es arbitrary: a)
  case Nil
  then show ?case by simp
next
  case (Cons e es)
  from Cons.prems(1) have e: "e \<in> set (g_adj g ! u)" and es: "set es \<subseteq> set (g_adj g ! u)" by auto
  from closed_under_arcs_fst [OF cl u] e have v: "fst e \<in> X" by auto
  show ?case
  proof (cases "bm_relax B Bi Bp u e (Inr a)")
    case (Inl err)
    with Cons.prems(3) show ?thesis by simp
  next
    case (Inr b)
    from bm_relax_ok [OF u e v Cons.prems(2) Inr] have "bm_ok g X st0 b" .
    moreover from Cons.prems(3) Inr have "fold (bm_relax B Bi Bp u) es (Inr b) = Inr a'" by simp
    ultimately show ?thesis using Cons.IH [OF es] by blast
  qed
qed

lemma fold_fold_bm_relax_Inl [simp]:
  "fold (\<lambda>u acc. fold (bm_relax B Bi Bp u) (g_adj g ! u) acc) us (Inl err) = Inl err"
  by (induction us) simp_all

lemma fold_fold_bm_relax_ok:
  assumes cl: "closed_under_arcs g X"
  shows "set us \<subseteq> X \<Longrightarrow> bm_ok g X st0 a \<Longrightarrow>
         fold (\<lambda>u acc. fold (bm_relax B Bi Bp u) (g_adj g ! u) acc) us (Inr a) = Inr a' \<Longrightarrow>
         bm_ok g X st0 a'"
proof (induction us arbitrary: a)
  case Nil
  then show ?case by simp
next
  case (Cons u us)
  from Cons.prems(1) have u: "u \<in> X" and us: "set us \<subseteq> X" by auto
  show ?case
  proof (cases "fold (bm_relax B Bi Bp u) (g_adj g ! u) (Inr a)")
    case (Inl err)
    with Cons.prems(3) show ?thesis by simp
  next
    case (Inr b)
    from fold_bm_relax_ok [OF u cl subset_refl Cons.prems(2) Inr] have "bm_ok g X st0 b" .
    moreover from Cons.prems(3) Inr have
      "fold (\<lambda>u acc. fold (bm_relax B Bi Bp u) (g_adj g ! u) acc) us (Inr b) = Inr a'" by simp
    ultimately show ?thesis using Cons.IH [OF us] by blast
  qed
qed

lemma keys_fold_back_eq:
  "fst ` set (fold (\<lambda>x K. if P x then K @ [(x, f x)] else K) xs K) =
     {x \<in> set xs. P x} \<union> fst ` set K"
  by (induction xs arbitrary: K) auto

lemma keys_fold_back:
  "fst ` set (fold (\<lambda>x K. if P x then K @ [(x, f x)] else K) xs K) \<subseteq> set xs \<union> fst ` set K"
  unfolding keys_fold_back_eq by blast

lemma bm_after_call_ok:
  assumes cl: "closed_under_arcs (graph cfg) X" and Ui: "set Ui \<subseteq> X" and Si: "set Si \<subseteq> X"
    and D: "wf_ds D" "ds_keys D \<subseteq> X"
    and res: "bm_after_call cfg B Bi Bp Si Ui D st = Inr (st', D')"
  shows "relax_steps (graph cfg) X st st' \<and> wf_ds D' \<and> ds_keys D' \<subseteq> X"
proof -
  let ?g = "graph cfg"
  let ?F = "fold (\<lambda>u acc. fold (bm_relax B Bi Bp u) (g_adj ?g ! u) acc) Ui (Inr (st, D, []))"
  from res obtain a where a: "?F = Inr a"
    by (cases ?F) (auto simp: bm_after_call_def)
  from D have "bm_ok ?g X st (st, D, [])" by (simp add: bm_ok_def)
  from fold_fold_bm_relax_ok [OF cl Ui this a] have
    ok: "relax_steps ?g X st (fst a)" "wf_ds (fst (snd a))" "ds_keys (fst (snd a)) \<subseteq> X"
      "fst ` set (snd (snd a)) \<subseteq> X" by (auto simp: bm_ok_def)
  let ?K = "fold (\<lambda>x K. if d_hat (fst a) ! x \<ge> Bp \<and> d_hat (fst a) ! x < Bi
                          then K @ [(x, d_hat (fst a) ! x)] else K) Si (snd (snd a))"
  from res a have bp: "batchPrepend ?K (fst (snd a)) = Inr D'" and st': "st' = fst a"
    by (auto simp: bm_after_call_def Let_def split: sum.splits)
  have "fst ` set ?K \<subseteq> set Si \<union> fst ` set (snd (snd a))" by (rule keys_fold_back)
  with Si ok(4) have K: "fst ` set ?K \<subseteq> X" by blast
  from batchPrepend_wf [OF ok(2) bp] ds_keys_batchPrepend [OF bp] ok(3) K
  have "wf_ds D'" "ds_keys D' \<subseteq> X" by auto
  with ok(1) st' show ?thesis by simp
qed

lemma insert_pivots_ok:
  "set P \<subseteq> X \<Longrightarrow> wf_ds D \<Longrightarrow> ds_keys D \<subseteq> X \<Longrightarrow> insert_pivots B st P D = Inr D' \<Longrightarrow>
     wf_ds D' \<and> ds_keys D' \<subseteq> X"
proof (induction P arbitrary: D)
  case Nil
  then show ?case by (simp add: insert_pivots_def)
next
  case (Cons x P)
  let ?f = "\<lambda>x acc. case acc of Inl e \<Rightarrow> Inl e
              | Inr D' \<Rightarrow> if d_hat st ! x < B then insert_ds x (d_hat st ! x) D' else Inr D'"
  have inl: "fold ?f xs (Inl e) = Inl e" for xs e by (induction xs) simp_all
  show ?case
  proof (cases "?f x (Inr D)")
    case (Inl e)
    with Cons.prems(4) inl show ?thesis by (simp add: insert_pivots_def)
  next
    case (Inr D1)
    then have "D1 = D \<or> insert_ds x (d_hat st ! x) D = Inr D1" by (auto split: if_splits)
    with Cons.prems insert_ds_wf [of D x "d_hat st ! x" D1] ds_keys_insert_ds [of x "d_hat st ! x" D D1]
    have D1: "wf_ds D1" "ds_keys D1 \<subseteq> X" by auto
    from Cons.prems(4) Inr have "insert_pivots B st P D1 = Inr D'" by (simp add: insert_pivots_def)
    with Cons.IH [OF _ D1] Cons.prems(1) show ?thesis by auto
  qed
qed

lemma set_bm_finish:
  "set (snd (fst (bm_finish B W U b st))) \<subseteq> set W \<union> set U \<and> snd (bm_finish B W U b st) = st"
proof -
  have "set (fold (\<lambda>x U'. if P x then set_insert x U' else U') W U) = {x \<in> set W. P x} \<union> set U"
    for P by (induction W arbitrary: U) auto
  then show ?thesis by (auto simp: bm_finish_def Let_def)
qed

lemma set_set_of_list [simp]: "set (set_of_list xs) = set xs"
  by (simp add: set_of_list_def)

lemma ds_keys_initialize [simp]: "ds_keys (initialize m b max_n) = {}"
  by (simp add: ds_keys_def initialize_def)

lemma BMSSP_steps_aux:
  assumes cl: "closed_under_arcs (graph cfg) X"
  shows "(\<forall>level B S st r st'. set S \<subseteq> X \<longrightarrow> BMSSP f cfg level B S st = Some (Inr (r, st')) \<longrightarrow>
            relax_steps (graph cfg) X st st' \<and> set (snd r) \<subseteq> X) \<and>
         (\<forall>level B D U b st l st'. wf_ds D \<longrightarrow> ds_keys D \<subseteq> X \<longrightarrow> set U \<subseteq> X \<longrightarrow>
            BMSSP_loop f cfg level B D U b st = Some (Inr (l, st')) \<longrightarrow>
            relax_steps (graph cfg) X st st' \<and> set (fst l) \<subseteq> X)"
proof (induction f)
  case 0
  show ?case by simp
next
  case (Suc f)
  let ?g = "graph cfg"
  from Suc.IH have IH1: "\<And>level B S st r st'. set S \<subseteq> X \<Longrightarrow>
      BMSSP f cfg level B S st = Some (Inr (r, st')) \<Longrightarrow>
      relax_steps ?g X st st' \<and> set (snd r) \<subseteq> X"
    and IH2: "\<And>level B D U b st l st'. wf_ds D \<Longrightarrow> ds_keys D \<subseteq> X \<Longrightarrow> set U \<subseteq> X \<Longrightarrow>
      BMSSP_loop f cfg level B D U b st = Some (Inr (l, st')) \<Longrightarrow>
      relax_steps ?g X st st' \<and> set (fst l) \<subseteq> X"
    by blast+
  have part1: "relax_steps ?g X st st' \<and> set (snd r) \<subseteq> X"
    if S: "set S \<subseteq> X" and res: "BMSSP (Suc f) cfg level B S st = Some (Inr (r, st'))"
    for level B S st r st'
  proof (cases "level = 0")
    case True
    with res have "baseCase f cfg B S st = Some ((fst r, snd r), st')" by auto
    from baseCase_steps [OF cl S this] show ?thesis .
  next
    case False
    from res False obtain P W st1 where fp: "findPivots f cfg B S st = Some ((P, W), st1)"
      by (cases "findPivots f cfg B S st") auto
    from findPivots_steps [OF cl S fp] have
      a: "relax_steps ?g X st st1" "set W \<subseteq> X" "set P \<subseteq> set S" by auto
    show ?thesis
    proof (cases "P = []")
      case True
      with res False fp a show ?thesis by auto
    next
      case ne: False
      let ?D0 = "initialize (int (block_size cfg level)) B (int (sp_k cfg * 2 ^ (level * sp_t cfg)))"
      from res False fp ne obtain D where D: "insert_pivots B st1 P ?D0 = Inr D"
        by (cases "insert_pivots B st1 P ?D0") auto
      from a(3) S have "set P \<subseteq> X" by blast
      from insert_pivots_ok [OF this initialize_wf _ D] have Dok: "wf_ds D" "ds_keys D \<subseteq> X" by auto
      from res False fp ne D obtain l st2 where
        loop: "BMSSP_loop f cfg level B D [] (B_prime_init st1 P) st1 = Some (Inr (l, st2))"
        and r: "(r, st') = bm_finish B W (fst l) (snd l) st2"
        by (auto simp: Let_def split: option.splits sum.splits)
      from IH2 [OF Dok _ loop] have b: "relax_steps ?g X st1 st2" "set (fst l) \<subseteq> X" by auto
      from set_bm_finish [of B W "fst l" "snd l" st2] r [symmetric] a(2) b(2)
      have "set (snd r) \<subseteq> X" "st' = st2" by auto
      with a(1) b(1) show ?thesis by (auto intro: relax_steps_trans)
    qed
  qed
  have part2: "relax_steps ?g X st st' \<and> set (fst l) \<subseteq> X"
    if D: "wf_ds D" "ds_keys D \<subseteq> X" and U: "set U \<subseteq> X"
      and res: "BMSSP_loop (Suc f) cfg level B D U b st = Some (Inr (l, st'))"
    for level B D U b st l st'
  proof (cases "length U < size_limit cfg level \<and> \<not> empty_ds D")
    case False
    with res U show ?thesis by auto
  next
    case True
    let ?p = "pull D"
    let ?Si = "set_of_list (fst (fst ?p))"
    let ?Bi = "snd (fst ?p)"
    from pull_keys [OF D(1)] D(2) have Si: "set ?Si \<subseteq> X" and D1k: "ds_keys (snd ?p) \<subseteq> X"
      by auto
    from pull_wf [OF D(1)] have D1w: "wf_ds (snd ?p)" .
    show ?thesis
    proof (cases "?Si = []")
      case e: True
      with res True U show ?thesis by (auto simp: Let_def)
    next
      case ne: False
      from res True ne obtain c where c: "BMSSP f cfg (level - 1) ?Bi ?Si st = Some (Inr c)"
        by (auto simp: Let_def split: option.splits sum.splits)
      from IH1 [OF Si, of "level - 1" ?Bi st "fst c" "snd c"] c have
        s1: "relax_steps ?g X st (snd c)" "set (snd (fst c)) \<subseteq> X" by auto
      from res True ne c obtain a where
        a: "bm_after_call cfg B ?Bi (fst (fst c)) ?Si (snd (fst c)) (snd ?p) (snd c) = Inr a"
        by (auto simp: Let_def split: sum.splits)
      from bm_after_call_ok [OF cl s1(2) Si D1w D1k, of B ?Bi "fst (fst c)" "snd c" "fst a" "snd a"] a
      have s2: "relax_steps ?g X (snd c) (fst a)" "wf_ds (snd a)" "ds_keys (snd a) \<subseteq> X" by auto
      from res True ne c a have
        l: "BMSSP_loop f cfg level B (snd a) (fold set_insert (snd (fst c)) U) (fst (fst c)) (fst a)
              = Some (Inr (l, st'))"
        by (simp add: Let_def)
      from s1(2) U have "set (fold set_insert (snd (fst c)) U) \<subseteq> X" by simp
      from IH2 [OF s2(2,3) this l] have "relax_steps ?g X (fst a) st'" "set (fst l) \<subseteq> X" by auto
      with s1(1) s2(1) show ?thesis by (auto intro: relax_steps_trans)
    qed
  qed
  from part1 part2 show ?case by blast
qed

lemma BMSSP_steps:
  assumes "closed_under_arcs (graph cfg) X" "set S \<subseteq> X"
    and "BMSSP f cfg level B S st = Some (Inr (r, st'))"
  shows "relax_steps (graph cfg) X st st'"
  using BMSSP_steps_aux [OF assms(1), of f] assms(2,3) by blast

subsection \<open>Invariants of relaxation steps\<close>

lemma relax_steps_induct:
  assumes "relax_steps g X st st'" and "P st"
    and "\<And>a b. relax_step g X a b \<Longrightarrow> P a \<Longrightarrow> P b"
  shows "P st'"
  using assms(1) unfolding relax_steps_def
  by (induction rule: rtranclp_induct) (auto intro: assms(2,3))

lemma solve_relax_steps:
  assumes "s \<in> X" "e \<in> set (g_adj g ! s)"
  shows "relax_steps g X st (solve_relax s e st)"
proof (cases "addw (d_hat st ! s) (snd e) < d_hat st ! fst e")
  case True
  then have "addw (d_hat st ! s) (snd e) \<le> d_hat st ! fst e" by simp
  from rs_relax [OF assms this] True show ?thesis
    by (simp add: solve_relax_def Let_def relax_steps_step)
next
  case False
  then show ?thesis by (simp add: solve_relax_def Let_def)
qed

lemma fold_solve_relax_steps:
  assumes "s \<in> X"
  shows "set es \<subseteq> set (g_adj g ! s) \<Longrightarrow> relax_steps g X st (fold (solve_relax s) es st)"
proof (induction es arbitrary: st)
  case Nil
  then show ?case by simp
next
  case (Cons e es)
  from Cons.prems have e: "e \<in> set (g_adj g ! s)" and es: "set es \<subseteq> set (g_adj g ! s)" by auto
  from solve_relax_steps [OF assms e, of st] Cons.IH [OF es, of "solve_relax s e st"]
  show ?case by (auto intro: relax_steps_trans)
qed

lemma solve_init_steps:
  "s \<in> X \<Longrightarrow> relax_steps (graph cfg) X (init_arrays (g_n (graph cfg)) s) (solve_init cfg s)"
  using fold_solve_relax_steps [of s X "g_adj (graph cfg) ! s" "graph cfg" "init_arrays (g_n (graph cfg)) s"]
  by (simp add: solve_init_def init_arrays_def Let_def)

lemma solve_steps:
  assumes cl: "closed_under_arcs (graph cfg) X" and s: "s \<in> X"
    and res: "solve fuel cfg s = Some (Inr r)"
  shows "\<exists>st'. relax_steps (graph cfg) X (init_arrays (g_n (graph cfg)) s) st' \<and>
           distances r = d_hat st' \<and> predecessors r = pred st'"
proof -
  from res obtain q st' where
    b: "BMSSP fuel cfg (max_level cfg) PInf [s] (solve_init cfg s) = Some (Inr (q, st'))"
    and r: "r = \<lparr>distances = d_hat st', predecessors = pred st', source = s\<rparr>"
    by (auto simp: solve_def split: option.splits sum.splits)
  from s have "set [s] \<subseteq> X" by simp
  from BMSSP_steps [OF cl this b] solve_init_steps [OF s, of cfg]
  have "relax_steps (graph cfg) X (init_arrays (g_n (graph cfg)) s) st'"
    by (rule relax_steps_trans [rotated])
  with r show ?thesis by auto
qed

lemma reachable_less:
  assumes wf: "wf_graph g" and s: "s < g_n g" and r: "reachable g s v"
  shows "v < g_n g"
  using r unfolding reachable_def
proof (induction rule: rtranclp_induct)
  case base
  then show ?case by (rule s)
next
  case (step y z)
  from step.hyps(2) obtain e where "y < g_n g" "e \<in> set (g_adj g ! y)" "z = fst e"
    by (auto simp: arc_def)
  with wf_graph_arc [OF wf] show ?case by blast
qed

lemma closed_reachable:
  assumes wf: "wf_graph g" and s: "s < g_n g"
  shows "closed_under_arcs g {v. reachable g s v}"
  unfolding closed_under_arcs_def
proof (intro ballI)
  fix u e
  assume u: "u \<in> {v. reachable g s v}" and e: "e \<in> set (g_adj g ! u)"
  from u have r: "reachable g s u" by simp
  from reachable_less [OF wf s r] e have "arc g u (fst e)" by (auto simp: arc_def)
  with r have "reachable g s (fst e)" by (simp add: reachable_def)
  then show "fst e \<in> {v. reachable g s v}" by simp
qed

lemma untouched_step:
  assumes cl: "closed_under_arcs g X" and st: "relax_step g X a b" and un: "untouched n X a"
  shows "untouched n X b"
  using st
proof cases
  case (rs_relax u e)
  from cl rs_relax(2,3) have "fst e \<in> X" by (auto simp: closed_under_arcs_def)
  then have "fst e \<noteq> i" if "i \<notin> X" for i using that by auto
  with un show ?thesis unfolding rs_relax(1) by (simp add: untouched_def)
next
  case (rs_count c)
  with un show ?thesis by (simp add: untouched_def)
next
  case (rs_complete c)
  with un show ?thesis by (simp add: untouched_def)
qed

lemma untouched_init:
  assumes "s \<in> X"
  shows "untouched n X (init_arrays n s)"
proof -
  from assms have "s \<noteq> i" if "i \<notin> X" for i using that by auto
  then show ?thesis by (simp add: untouched_def init_arrays_def)
qed

lemma addw_zero: "Fin 0 \<le> d \<Longrightarrow> 0 \<le> w \<Longrightarrow> addw d w = Fin 0 \<Longrightarrow> d = Fin 0 \<and> w = 0"
  by (cases d) auto

lemma le_zero_nonneg: "Fin 0 \<le> d \<Longrightarrow> d \<le> Fin 0 \<Longrightarrow> d = Fin 0"
  by (rule antisym)

lemma nonneg_inv_step:
  assumes wf: "wf_graph g" and s: "s < g_n g" and X: "\<forall>u\<in>X. u < g_n g"
    and st: "relax_step g X a b" and inv: "nonneg_inv g s a"
  shows "nonneg_inv g s b"
  using st
proof cases
  case (rs_relax u e)
  let ?n = "g_n g"
  let ?nd = "addw (d_hat a ! u) (snd e)"
  from X rs_relax(2) have u: "u < ?n" by auto
  from wf_graph_arc [OF wf u rs_relax(3)] have v: "fst e < ?n" and w: "0 \<le> snd e" by auto
  from inv u have du: "Fin 0 \<le> d_hat a ! u" by (simp add: nonneg_inv_def)
  then have nd: "Fin 0 \<le> ?nd" using w by (rule addw_nonneg)
  have nn: "Fin 0 \<le> (d_hat a)[fst e := ?nd] ! i" if "i < ?n" for i
    using that inv nd by (cases "i = fst e") (simp_all add: nonneg_inv_def)
  have ds: "(d_hat a)[fst e := ?nd] ! s = Fin 0"
  proof (cases "fst e = s")
    case True
    with rs_relax(4) inv have "?nd \<le> Fin 0" by (simp add: nonneg_inv_def)
    with nd have "?nd = Fin 0" by (rule le_zero_nonneg)
    with True inv s show ?thesis by (simp add: nonneg_inv_def)
  next
    case False
    with inv show ?thesis by (simp add: nonneg_inv_def)
  qed
  from nn ds inv show ?thesis unfolding rs_relax(1) by (simp add: nonneg_inv_def)
next
  case (rs_count c)
  with inv show ?thesis by (simp add: nonneg_inv_def)
next
  case (rs_complete c)
  with inv show ?thesis by (simp add: nonneg_inv_def)
qed

lemma zero_inv_step:
  assumes wf: "wf_graph g" and s: "s < g_n g" and X: "\<forall>u\<in>X. u < g_n g"
    and acyc: "\<not> (zero_arc g)\<^sup>+\<^sup>+ s s"
    and st: "relax_step g X a b" and inv: "zero_inv g s a"
  shows "zero_inv g s b"
proof -
  from inv have nn: "nonneg_inv g s a" by (simp add: zero_inv_def)
  from nonneg_inv_step [OF wf s X st nn] have nnb: "nonneg_inv g s b" .
  from st show ?thesis
  proof cases
    case (rs_relax u e)
    let ?n = "g_n g"
    let ?nd = "addw (d_hat a ! u) (snd e)"
    from X rs_relax(2) have u: "u < ?n" by auto
    from wf_graph_arc [OF wf u rs_relax(3)] have v: "fst e < ?n" and w: "0 \<le> snd e" by auto
    from nn u have du: "Fin 0 \<le> d_hat a ! u" by (simp add: nonneg_inv_def)
    have reach: "(zero_arc g)\<^sup>*\<^sup>* s (fst e)" if z: "?nd = Fin 0"
    proof -
      from addw_zero [OF du w z] have "d_hat a ! u = Fin 0" "snd e = 0" by auto
      with inv u have "(zero_arc g)\<^sup>*\<^sup>* s u" by (simp add: zero_inv_def)
      moreover from \<open>snd e = 0\<close> rs_relax(3) u have "zero_arc g u (fst e)"
        by (metis prod.collapse zero_arc_def)
      ultimately show ?thesis by (rule rtranclp.rtrancl_into_rtrancl)
    qed
    have vs: "fst e \<noteq> s"
    proof
      assume eq: "fst e = s"
      with rs_relax(4) nn have "?nd \<le> Fin 0" by (simp add: nonneg_inv_def)
      moreover from du w have "Fin 0 \<le> ?nd" by (rule addw_nonneg)
      ultimately have z: "?nd = Fin 0" by (rule le_zero_nonneg [rotated])
      from addw_zero [OF du w z] have "d_hat a ! u = Fin 0" "snd e = 0" by auto
      with inv u have "(zero_arc g)\<^sup>*\<^sup>* s u" by (simp add: zero_inv_def)
      moreover from \<open>snd e = 0\<close> rs_relax(3) u eq have "zero_arc g u s"
        by (metis prod.collapse zero_arc_def)
      ultimately have "(zero_arc g)\<^sup>+\<^sup>+ s s" by (rule rtranclp_into_tranclp1)
      with acyc show False ..
    qed
    have Z: "(zero_arc g)\<^sup>*\<^sup>* s i" if "i < ?n" "(d_hat a)[fst e := ?nd] ! i = Fin 0" for i
    proof (cases "i = fst e")
      case True
      with that inv nn have "?nd = Fin 0" by (simp add: nonneg_inv_def)
      with True reach show ?thesis by simp
    next
      case False
      with that inv show ?thesis by (simp add: zero_inv_def)
    qed
    from nnb Z vs inv show ?thesis unfolding rs_relax(1) by (simp add: zero_inv_def)
  next
    case (rs_count c)
    with inv nnb show ?thesis by (simp add: zero_inv_def)
  next
    case (rs_complete c)
    with inv nnb show ?thesis by (simp add: zero_inv_def)
  qed
qed

lemma nonneg_inv_init: "s < g_n g \<Longrightarrow> nonneg_inv g s (init_arrays (g_n g) s)"
  by (auto simp: nonneg_inv_def init_arrays_def nth_list_update)

lemma zero_inv_init: "s < g_n g \<Longrightarrow> zero_inv g s (init_arrays (g_n g) s)"
  by (auto simp: zero_inv_def nonneg_inv_init) (auto simp: init_arrays_def nth_list_update split: if_splits)

subsection \<open>Zero-weight cycles through the source\<close>

lemma on_zero_cycle_source: "on_zero_cycle g s s"
  by (simp add: on_zero_cycle_def)

lemma on_zero_cycle_succ:
  assumes cyc: "(zero_arc g)\<^sup>+\<^sup>+ s s" and c: "on_zero_cycle g s c"
  shows "\<exists>c'. zero_arc g c c' \<and> on_zero_cycle g s c'"
proof -
  from c have sc: "(zero_arc g)\<^sup>*\<^sup>* s c" and cs: "(zero_arc g)\<^sup>*\<^sup>* c s"
    by (auto simp: on_zero_cycle_def)
  from cs show ?thesis
  proof (cases rule: converse_rtranclpE)
    case base
    from tranclpD [OF cyc] obtain c' where "zero_arc g s c'" "(zero_arc g)\<^sup>*\<^sup>* c' s" by blast
    with base show ?thesis by (auto simp: on_zero_cycle_def)
  next
    case (step c')
    from sc step(1) have "(zero_arc g)\<^sup>*\<^sup>* s c'" by (rule rtranclp.rtrancl_into_rtrancl)
    with step show ?thesis by (auto simp: on_zero_cycle_def)
  qed
qed

lemma addw_Fin0 [simp]: "addw (Fin 0) w = Fin w"
  by simp

lemma bc_relax_caseA:
  assumes len: "length (d_hat st) = n" and nn: "\<forall>i<n. Fin 0 \<le> d_hat st ! i"
    and u: "u < n" and du: "d_hat st ! u = Fin 0"
    and e: "fst e < n" "0 \<le> snd e" and B: "Fin 0 < B" and H: "heap_ok n st H"
  shows "length (d_hat (fst (bc_relax B u e (st, H)))) = n \<and>
         (\<forall>i<n. Fin 0 \<le> d_hat (fst (bc_relax B u e (st, H))) ! i) \<and>
         (\<forall>i<n. d_hat (fst (bc_relax B u e (st, H))) ! i \<le> d_hat st ! i) \<and>
         heap_ok n (fst (bc_relax B u e (st, H))) (snd (bc_relax B u e (st, H))) \<and>
         set H \<subseteq> set (snd (bc_relax B u e (st, H))) \<and>
         (snd e = 0 \<longrightarrow> (Fin 0, fst e) \<in> set (snd (bc_relax B u e (st, H))))"
proof (cases "Fin (snd e) \<le> d_hat st ! fst e \<and> Fin (snd e) < B")
  case False
  have "snd e \<noteq> 0"
  proof
    assume "snd e = 0"
    with False nn e(1) B show False by auto
  qed
  with False len nn H du show ?thesis
    by (auto simp: bc_relax_def Let_def heap_ok_def)
next
  case True
  let ?d = "(d_hat st)[fst e := Fin (snd e)]"
  let ?st2 = "st\<lparr>relaxation_count := relaxation_count st + 1, d_hat := ?d,
                  pred := (pred st)[fst e := Some u]\<rparr>"
  have r: "bc_relax B u e (st, H) = (?st2, insort (Fin (snd e), fst e) H)"
    using True du e(1) len by (simp add: bc_relax_def Let_def)
  have le: "?d ! i \<le> d_hat st ! i" if "i < n" for i
    using that True len by (cases "i = fst e") simp_all
  have nn': "Fin 0 \<le> ?d ! i" if "i < n" for i
    using that nn e len by (cases "i = fst e") simp_all
  have ent: "snd p < n \<and> Fin 0 \<le> fst p \<and> d_hat ?st2 ! snd p \<le> fst p"
    if "p \<in> set (insort (Fin (snd e), fst e) H)" for p
  proof -
    from that consider "p = (Fin (snd e), fst e)" | "p \<in> set H" by (auto simp: set_insort_key)
    then show ?thesis
    proof cases
      case 1
      with e len show ?thesis by simp
    next
      case 2
      with H have p: "snd p < n" "Fin 0 \<le> fst p" "d_hat st ! snd p \<le> fst p"
        by (auto simp: heap_ok_def)
      from le [OF p(1)] p(3) have "?d ! snd p \<le> fst p" by (rule order_trans)
      with p show ?thesis by simp
    qed
  qed
  from H have "sorted (insort (Fin (snd e), fst e) H)" by (simp add: heap_ok_def sorted_insort)
  with ent have "heap_ok n ?st2 (insort (Fin (snd e), fst e) H)"
    unfolding heap_ok_def by blast
  with le nn' len show ?thesis unfolding r by (auto simp: set_insort_key)
qed

lemma fold_bc_relax_caseA:
  assumes u: "u < n" and B: "Fin 0 < B"
  shows "list_all (\<lambda>e. fst e < n \<and> 0 \<le> snd e) es \<Longrightarrow> length (d_hat st) = n \<Longrightarrow>
         \<forall>i<n. Fin 0 \<le> d_hat st ! i \<Longrightarrow> d_hat st ! u = Fin 0 \<Longrightarrow> heap_ok n st H \<Longrightarrow>
         length (d_hat (fst (fold (bc_relax B u) es (st, H)))) = n \<and>
         (\<forall>i<n. Fin 0 \<le> d_hat (fst (fold (bc_relax B u) es (st, H))) ! i) \<and>
         (\<forall>i<n. d_hat (fst (fold (bc_relax B u) es (st, H))) ! i \<le> d_hat st ! i) \<and>
         heap_ok n (fst (fold (bc_relax B u) es (st, H))) (snd (fold (bc_relax B u) es (st, H))) \<and>
         set H \<subseteq> set (snd (fold (bc_relax B u) es (st, H))) \<and>
         (\<forall>e\<in>set es. snd e = 0 \<longrightarrow> (Fin 0, fst e) \<in> set (snd (fold (bc_relax B u) es (st, H))))"
proof (induction es arbitrary: st H)
  case Nil
  then show ?case by simp
next
  case (Cons e es)
  let ?r1 = "bc_relax B u e (st, H)"
  let ?r2 = "fold (bc_relax B u) es ?r1"
  from Cons.prems(1) have e: "fst e < n" "0 \<le> snd e"
    and es: "list_all (\<lambda>e. fst e < n \<and> 0 \<le> snd e) es" by auto
  from bc_relax_caseA [OF Cons.prems(2,3) u Cons.prems(4) e B Cons.prems(5)] have
    a: "length (d_hat (fst ?r1)) = n" "\<forall>i<n. Fin 0 \<le> d_hat (fst ?r1) ! i"
       "\<forall>i<n. d_hat (fst ?r1) ! i \<le> d_hat st ! i" "heap_ok n (fst ?r1) (snd ?r1)"
       "set H \<subseteq> set (snd ?r1)" "snd e = 0 \<longrightarrow> (Fin 0, fst e) \<in> set (snd ?r1)"
    by auto
  from a(2,3) u Cons.prems(4) have du: "d_hat (fst ?r1) ! u = Fin 0"
    by (metis le_zero_nonneg)
  from Cons.IH [OF es a(1,2) du a(4)] have
    b: "length (d_hat (fst ?r2)) = n" "\<forall>i<n. Fin 0 \<le> d_hat (fst ?r2) ! i"
       "\<forall>i<n. d_hat (fst ?r2) ! i \<le> d_hat (fst ?r1) ! i" "heap_ok n (fst ?r2) (snd ?r2)"
       "set (snd ?r1) \<subseteq> set (snd ?r2)"
       "\<forall>e\<in>set es. snd e = 0 \<longrightarrow> (Fin 0, fst e) \<in> set (snd ?r2)"
    by (simp_all add: prod.collapse)
  from a(3) b(3) have le: "\<forall>i<n. d_hat (fst ?r2) ! i \<le> d_hat st ! i"
    by (meson order_trans)
  from a(5) b(5) have sub: "set H \<subseteq> set (snd ?r2)" by blast
  from a(6) b(5,6) have ent: "\<forall>e'\<in>set (e # es). snd e' = 0 \<longrightarrow> (Fin 0, fst e') \<in> set (snd ?r2)"
    by auto
  from b(1,2,4) le sub ent show ?case by simp
qed

lemma lex_le_fst: "(h :: dist \<times> nat) \<le> p \<Longrightarrow> fst h \<le> fst p"
  by (auto simp: less_eq_prod_def)

lemma heap_head_zero:
  assumes H: "heap_ok n st (h # H1)" and c: "(Fin 0, c) \<in> set (h # H1)"
    and len: "length (d_hat st) = n" and nn: "\<forall>i<n. Fin 0 \<le> d_hat st ! i"
  shows "fst h = Fin 0 \<and> snd h < n \<and> d_hat st ! snd h = Fin 0"
proof -
  from H have sorted: "sorted (h # H1)"
    and h: "snd h < n" "Fin 0 \<le> fst h" "d_hat st ! snd h \<le> fst h"
    by (auto simp: heap_ok_def)
  from sorted c have "h \<le> (Fin 0, c)" by auto
  then have "fst h \<le> Fin 0" using lex_le_fst by fastforce
  with h(2) have z: "fst h = Fin 0" by (rule le_zero_nonneg)
  with h(3) nn h(1) have "d_hat st ! snd h = Fin 0" by (metis le_zero_nonneg)
  with z h(1) show ?thesis by simp
qed

lemma bc_loop_caseA:
  assumes wf: "wf_graph (graph cfg)" and cyc: "(zero_arc (graph cfg))\<^sup>+\<^sup>+ s s" and B: "Fin 0 < B"
  shows "length (d_hat st) = g_n (graph cfg) \<Longrightarrow> \<forall>i<g_n (graph cfg). Fin 0 \<le> d_hat st ! i \<Longrightarrow>
         \<forall>v\<in>set U0. v < g_n (graph cfg) \<and> d_hat st ! v = Fin 0 \<Longrightarrow>
         heap_ok (g_n (graph cfg)) st H \<Longrightarrow>
         \<exists>c. on_zero_cycle (graph cfg) s c \<and> (Fin 0, c) \<in> set H \<Longrightarrow>
         bc_loop fuel cfg B U0 H st = Some (U0', H', st') \<Longrightarrow>
         sp_k cfg + 1 \<le> length U0' \<and> (\<forall>v\<in>set U0'. d_hat st' ! v = Fin 0)"
proof (induction fuel arbitrary: U0 H st)
  case 0
  from "0.prems"(5) have "H \<noteq> []" by auto
  with "0.prems"(3,6) show ?case by (auto split: if_splits)
next
  case (Suc f)
  let ?g = "graph cfg"
  let ?n = "g_n ?g"
  from Suc.prems(5) obtain c where c: "on_zero_cycle ?g s c" "(Fin 0, c) \<in> set H" by blast
  then obtain h H1 where H: "H = h # H1" by (cases H) auto
  show ?case
  proof (cases "length U0 < sp_k cfg + 1")
    case False
    with Suc.prems(3,6) show ?thesis by auto
  next
    case True
    let ?u = "snd h"
    from heap_head_zero [OF Suc.prems(4) [unfolded H] c(2) [unfolded H] Suc.prems(1,2)]
    have h: "fst h = Fin 0" "?u < ?n" "d_hat st ! ?u = Fin 0" by auto
    let ?U1 = "set_insert ?u U0"
    let ?st1 = "st\<lparr>complete := (complete st)[?u := True]\<rparr>"
    let ?r = "fold (bc_relax B ?u) (g_adj ?g ! ?u) (?st1, H1)"
    from Suc.prems(4) H have H1: "heap_ok ?n ?st1 H1" by (auto simp: heap_ok_def)
    from Suc.prems(1,2) h(3) have st1: "length (d_hat ?st1) = ?n" "\<forall>i<?n. Fin 0 \<le> d_hat ?st1 ! i"
      "d_hat ?st1 ! ?u = Fin 0" by simp_all
    from fold_bc_relax_caseA [OF h(2) B wf_graph_adj [OF wf h(2)] st1 H1] have
      r: "length (d_hat (fst ?r)) = ?n" "\<forall>i<?n. Fin 0 \<le> d_hat (fst ?r) ! i"
         "\<forall>i<?n. d_hat (fst ?r) ! i \<le> d_hat ?st1 ! i" "heap_ok ?n (fst ?r) (snd ?r)"
         "set H1 \<subseteq> set (snd ?r)"
         "\<forall>e\<in>set (g_adj ?g ! ?u). snd e = 0 \<longrightarrow> (Fin 0, fst e) \<in> set (snd ?r)"
      by auto
    have cyc': "\<exists>c. on_zero_cycle ?g s c \<and> (Fin 0, c) \<in> set (snd ?r)"
    proof (cases "(Fin 0, c) \<in> set H1")
      case True
      with r(5) c(1) show ?thesis by blast
    next
      case False
      with c(2) H have "h = (Fin 0, c)" by auto
      then have uc: "?u = c" by simp
      from on_zero_cycle_succ [OF cyc c(1)] obtain c' where
        c': "zero_arc ?g c c'" "on_zero_cycle ?g s c'" by blast
      from c'(1) uc have "(c', 0) \<in> set (g_adj ?g ! ?u)" by (simp add: zero_arc_def)
      with r(6) have "(Fin 0, c') \<in> set (snd ?r)" by fastforce
      with c'(2) show ?thesis by blast
    qed
    have U1: "\<forall>v\<in>set ?U1. v < ?n \<and> d_hat (fst ?r) ! v = Fin 0"
    proof
      fix v assume "v \<in> set ?U1"
      with Suc.prems(3) h have v: "v < ?n" "d_hat ?st1 ! v = Fin 0" by auto
      with r(2,3) have "d_hat (fst ?r) ! v = Fin 0" by (metis le_zero_nonneg)
      with v show "v < ?n \<and> d_hat (fst ?r) ! v = Fin 0" by simp
    qed
    have fresh: "\<not> fst h > d_hat st ! ?u" using h by simp
    from Suc.prems(6) True H fresh have
      "bc_loop f cfg B ?U1 (snd ?r) (fst ?r) = Some (U0', H', st')"
      by (simp add: Let_def)
    from Suc.IH [OF r(1,2) U1 r(4) cyc' this] show ?thesis .
  qed
qed

lemma fold_max_zero:
  "\<forall>v\<in>set xs. f v = Fin 0 \<Longrightarrow> fold (\<lambda>v m. max m (f v)) xs (Fin 0) = Fin 0"
  by (induction xs) simp_all

lemma baseCase_caseA:
  assumes wf: "wf_graph (graph cfg)" and cyc: "(zero_arc (graph cfg))\<^sup>+\<^sup>+ s s" and B: "Fin 0 < B"
    and s: "s < g_n (graph cfg)" and nn: "nonneg_inv (graph cfg) s st"
    and res: "baseCase fuel cfg B [s] st = Some (r, st')"
  shows "r = (Fin 0, [])"
proof -
  let ?n = "g_n (graph cfg)"
  from res obtain U0 H where
    loop: "bc_loop fuel cfg B [s] [(d_hat st ! s, s)] st = Some (U0, H, st')"
    by (cases "bc_loop fuel cfg B [s] [(d_hat st ! s, s)] st")
      (auto simp: baseCase_def Let_def split: if_splits)
  from nn have ds: "d_hat st ! s = Fin 0" and len: "length (d_hat st) = ?n"
    and nn': "\<forall>i<?n. Fin 0 \<le> d_hat st ! i" by (auto simp: nonneg_inv_def)
  from ds s have H0: "heap_ok ?n st [(d_hat st ! s, s)]" by (simp add: heap_ok_def)
  from ds s have U0: "\<forall>v\<in>set [s]. v < ?n \<and> d_hat st ! v = Fin 0" by simp
  from ds on_zero_cycle_source [of "graph cfg" s] have
    c: "\<exists>c. on_zero_cycle (graph cfg) s c \<and> (Fin 0, c) \<in> set [(d_hat st ! s, s)]" by auto
  from bc_loop_caseA [OF wf cyc B len nn' U0 H0 c loop] have
    a: "sp_k cfg + 1 \<le> length U0" "\<forall>v\<in>set U0. d_hat st' ! v = Fin 0" by auto
  from a(2) have m: "fold (\<lambda>v m. max m (d_hat st' ! v)) U0 (Fin 0) = Fin 0"
    by (rule fold_max_zero)
  from a(2) have "filter (\<lambda>v. d_hat st' ! v < Fin 0) U0 = []"
    by (auto simp: filter_empty_conv)
  with res loop a(1) m show ?thesis by (simp add: baseCase_def Let_def)
qed

subsection \<open>A workspace holding only the source\<close>

lemma collect_all:
  "cnt + length (elems_of bs) \<le> m \<Longrightarrow> collect m cnt bs = elems_of bs"
proof (induction bs arbitrary: cnt)
  case Nil
  then show ?case by simp
next
  case (Cons b bs)
  show ?case
  proof (cases "cnt + length (elements b) \<ge> m")
    case True
    obtain L where L: "L = length (elems_of bs)" by simp
    from Cons.prems have "cnt + length (elements b) + L \<le> m" unfolding L by simp
    with True have "L = 0" by simp
    with L have "elems_of bs = []" by simp
    with True show ?thesis by simp
  next
    case False
    from Cons.prems have "cnt + length (elements b) + length (elems_of bs) \<le> m" by simp
    from Cons.IH [OF this] False show ?thesis by simp
  qed
qed

lemma empty_ds_all_elements: "empty_ds D \<longleftrightarrow> all_elements D = []"
  by (auto simp: empty_ds_def all_elements_def list_all_iff)

lemma sort_by_value_single [simp]: "sort_by_value [x] = [x]"
  by (simp add: sort_by_value_def)

lemma pull_single:
  assumes "single_ds s D"
  shows "\<not> empty_ds D \<and> fst (pull D) = ([s], PInf) \<and> wf_ds (snd (pull D)) \<and>
         key_values (snd (pull D)) = [] \<and> ds_B (snd (pull D)) = PInf"
proof -
  from assms have wf: "wf_ds D" and kv: "key_values D = [(s, Fin 0)]" and B: "ds_B D = PInf"
    by (auto simp: single_ds_def)
  from wf kv have "mset (all_elements D) = {#(s, Fin 0)#}" by (simp add: wf_ds_def)
  then have all: "all_elements D = [(s, Fin 0)]" by (metis mset_single_iff_right mset.simps(1) mset.simps(2))
  from wf have M: "1 \<le> ds_M D" by (simp add: wf_ds_def)
  from all have l0: "length (elems_of (D0 D)) \<le> 1" and l1: "length (elems_of (D1 D)) \<le> 1"
    by (simp_all add: all_elements_def) (metis length_append le_add1 le_add2 length_Cons list.size(3) One_nat_def)+
  from l0 M have c0: "collect (ds_M D) 0 (D0 D) = elems_of (D0 D)" by (intro collect_all) simp
  from l1 M have c1: "collect (ds_M D) 0 (D1 D) = elems_of (D1 D)" by (intro collect_all) simp
  from c0 c1 all have cand: "collect (ds_M D) 0 (D0 D) @ collect (ds_M D) 0 (D1 D) = [(s, Fin 0)]"
    by (simp add: all_elements_def)
  from wf have inv: "inv_ds {#} D" by (simp add: wf_ds_inv)
  from kv have look: "map_of (key_values D) s = Some (Fin 0)" by simp
  from removeKey_inv [OF inv look] kv all have
    r: "inv_ds {#} (removeKey s D)" "key_values (removeKey s D) = []"
       "all_elements (removeKey s D) = []" by auto
  from M have tk: "min (ds_M D) (Suc 0) = Suc 0" by simp
  from cand r tk B have "pull D = (([s], PInf), removeKey s D)"
    by (simp add: pull_def Let_def empty_ds_all_elements)
  with r all B show ?thesis by (simp add: wf_ds_inv empty_ds_all_elements)
qed

lemma batchPrepend_single:
  assumes wf: "wf_ds D" and kv: "key_values D = []" and B: "ds_B D = PInf"
  shows "\<exists>D'. batchPrepend [(s, Fin 0)] D = Inr D' \<and> single_ds s D'"
proof -
  have u: "unique_items [(s, Fin 0)] = [(s, Fin 0)]"
    by (simp add: unique_items_def unique_step_def)
  from kv have c: "fold check_existing [(s, Fin 0)] ([], D) = ([(s, Fin 0)], D\<lparr>key_values := [(s, Fin 0)]\<rparr>)"
    by (simp add: check_existing_def Let_def)
  from wf have M: "1 \<le> ds_M D" by (simp add: wf_ds_def)
  let ?D' = "D\<lparr>key_values := [(s, Fin 0)], D0 := mk_block [(s, Fin 0)] # D0 D\<rparr>"
  from u c M have b: "batchPrepend [(s, Fin 0)] D = Inr ?D'"
    by (simp add: batchPrepend_def Let_def)
  from batchPrepend_wf [OF wf b] B have "single_ds s ?D'" by (simp add: single_ds_def)
  with b show ?thesis by blast
qed

lemma insert_pivots_single:
  assumes "d_hat st ! s = Fin 0"
  shows "\<exists>D. insert_pivots PInf st [s] (initialize m PInf mx) = Inr D \<and> single_ds s D"
proof -
  let ?I = "initialize m PInf mx"
  have inv: "inv_ds {#} ?I" using initialize_wf [of m PInf mx] by (simp add: wf_ds_inv)
  have none: "map_of (key_values ?I) s = None" by (simp add: initialize_def)
  from insert_fresh_ok [OF inv none, of "Fin 0"] obtain D where
    D: "insert_fresh s (Fin 0) ?I = Inr D" "inv_ds {#} D" "ds_B D = ds_B ?I" by blast
  from key_values_insert_fresh [OF D(1)] have "key_values D = [(s, Fin 0)]"
    by (simp add: initialize_def)
  with D have "single_ds s D" by (simp add: single_ds_def wf_ds_inv initialize_def)
  moreover from assms D(1) none have "insert_pivots PInf st [s] ?I = Inr D"
    by (simp add: insert_pivots_def insert_ds_def)
  ultimately show ?thesis by blast
qed

subsection \<open>No return on a zero-weight cycle through the source\<close>

lemma nonneg_inv_steps:
  assumes "wf_graph g" "s < g_n g" "\<forall>u\<in>X. u < g_n g" "relax_steps g X a b" "nonneg_inv g s a"
  shows "nonneg_inv g s b"
  using assms(4,5) by (rule relax_steps_induct) (rule nonneg_inv_step [OF assms(1,2,3)])

lemma reachable_refl [simp]: "reachable g s s"
  by (simp add: reachable_def)

lemma size_limit_pos: "0 < size_limit cfg level"
  by (simp add: size_limit_def)

lemma set_of_list_single [simp]: "set_of_list [s] = [s]"
  by (simp add: set_of_list_def set_insert_def)

lemma findPivots_single:
  "findPivots fuel cfg B [s] st = Some ((P, W), st') \<Longrightarrow> P = [s]"
  by (auto simp: findPivots_def Let_def split: if_splits option.splits)

lemma BMSSP_caseA_aux:
  assumes wf: "wf_graph (graph cfg)" and s: "s < g_n (graph cfg)"
    and cyc: "(zero_arc (graph cfg))\<^sup>+\<^sup>+ s s"
  shows "(\<forall>level st r. 0 < level \<longrightarrow> nonneg_inv (graph cfg) s st \<longrightarrow>
            BMSSP f cfg level PInf [s] st \<noteq> Some (Inr r)) \<and>
         (\<forall>level D b st r. 0 < level \<longrightarrow> single_ds s D \<longrightarrow> nonneg_inv (graph cfg) s st \<longrightarrow>
            BMSSP_loop f cfg level PInf D [] b st \<noteq> Some (Inr r))"
proof (induction f)
  case 0
  show ?case by simp
next
  case (Suc f)
  let ?g = "graph cfg"
  let ?X = "{v. reachable ?g s v}"
  have cl: "closed_under_arcs ?g ?X" by (rule closed_reachable [OF wf s])
  have X: "\<forall>u\<in>?X. u < g_n ?g" using reachable_less [OF wf s] by simp
  have sX: "set [s] \<subseteq> ?X" by simp
  from Suc.IH have IH1: "\<And>level st r. 0 < level \<Longrightarrow> nonneg_inv ?g s st \<Longrightarrow>
      BMSSP f cfg level PInf [s] st \<noteq> Some (Inr r)"
    and IH2: "\<And>level D b st r. 0 < level \<Longrightarrow> single_ds s D \<Longrightarrow> nonneg_inv ?g s st \<Longrightarrow>
      BMSSP_loop f cfg level PInf D [] b st \<noteq> Some (Inr r)"
    by blast+
  have part1: "BMSSP (Suc f) cfg level PInf [s] st \<noteq> Some (Inr r)"
    if lev: "0 < level" and nn: "nonneg_inv ?g s st" for level st r
  proof
    assume res: "BMSSP (Suc f) cfg level PInf [s] st = Some (Inr r)"
    from res lev obtain P W st1 where fp: "findPivots f cfg PInf [s] st = Some ((P, W), st1)"
      by (cases "findPivots f cfg PInf [s] st") auto
    from findPivots_single [OF fp] have P: "P = [s]" .
    from findPivots_steps [OF cl sX fp] have a: "relax_steps ?g ?X st st1" by auto
    from nonneg_inv_steps [OF wf s X a nn] have nn1: "nonneg_inv ?g s st1" .
    then have ds: "d_hat st1 ! s = Fin 0" by (simp add: nonneg_inv_def)
    let ?I = "initialize (int (block_size cfg level)) PInf (int (sp_k cfg * 2 ^ (level * sp_t cfg)))"
    from insert_pivots_single [OF ds] obtain D where
      D: "insert_pivots PInf st1 [s] ?I = Inr D" "single_ds s D" by blast
    from res lev fp P D obtain l where
      "BMSSP_loop f cfg level PInf D [] (B_prime_init st1 [s]) st1 = Some (Inr l)"
      by (auto simp: Let_def split: option.splits sum.splits)
    with IH2 [OF lev D(2) nn1] show False by blast
  qed
  have part2: "BMSSP_loop (Suc f) cfg level PInf D [] b st \<noteq> Some (Inr r)"
    if lev: "0 < level" and D: "single_ds s D" and nn: "nonneg_inv ?g s st" for level D b st r
  proof
    assume res: "BMSSP_loop (Suc f) cfg level PInf D [] b st = Some (Inr r)"
    from pull_single [OF D] have
      p: "\<not> empty_ds D" "fst (pull D) = ([s], PInf)" "wf_ds (snd (pull D))"
         "key_values (snd (pull D)) = []" "ds_B (snd (pull D)) = PInf" by auto
    from res p(1,2) size_limit_pos [of cfg level] obtain c where
      c: "BMSSP f cfg (level - 1) PInf [s] st = Some (Inr c)"
      by (auto simp: Let_def split: option.splits sum.splits)
    show False
    proof (cases "0 < level - 1")
      case True
      from IH1 [OF True nn] c show False by blast
    next
      case False
      then have l0: "level - 1 = 0" by simp
      from c l0 obtain f' where f': "f = Suc f'" by (cases f) auto
      from c l0 f' have bc: "baseCase f' cfg PInf [s] st = Some (fst c, snd c)" by auto
      from baseCase_caseA [OF wf cyc _ s nn bc] have c1: "fst c = (Fin 0, [])" by simp
      from bc have "baseCase f' cfg PInf [s] st = Some ((fst (fst c), snd (fst c)), snd c)" by simp
      from baseCase_steps [OF cl sX this] have "relax_steps ?g ?X st (snd c)" by simp
      from nonneg_inv_steps [OF wf s X this nn] have nn1: "nonneg_inv ?g s (snd c)" .
      then have ds: "d_hat (snd c) ! s = Fin 0" by (simp add: nonneg_inv_def)
      from batchPrepend_single [OF p(3,4,5), of s] obtain D' where
        D': "batchPrepend [(s, Fin 0)] (snd (pull D)) = Inr D'" "single_ds s D'" by blast
      from ds D'(1) c1 have
        ac: "bm_after_call cfg PInf PInf (Fin 0) [s] [] (snd (pull D)) (snd c) = Inr (snd c, D')"
        by (simp add: bm_after_call_def Let_def)
      from res p(1,2) size_limit_pos [of cfg level] c c1 ac have
        "BMSSP_loop f cfg level PInf D' [] (Fin 0) (snd c) = Some (Inr r)"
        by (simp add: Let_def)
      with IH2 [OF lev D'(2) nn1] show False by blast
    qed
  qed
  from part1 part2 show ?case by blast
qed

lemma solve_no_return_on_zero_cycle:
  assumes wf: "wf_graph (graph cfg)" and s: "s < g_n (graph cfg)" and lev: "0 < max_level cfg"
    and cyc: "(zero_arc (graph cfg))\<^sup>+\<^sup>+ s s"
  shows "solve fuel cfg s \<noteq> Some (Inr r)"
proof
  assume res: "solve fuel cfg s = Some (Inr r)"
  let ?g = "graph cfg"
  let ?X = "{v. reachable ?g s v}"
  have X: "\<forall>u\<in>?X. u < g_n ?g" using reachable_less [OF wf s] by simp
  have "s \<in> ?X" by simp
  from nonneg_inv_steps [OF wf s X solve_init_steps [OF this] nonneg_inv_init [OF s]]
  have "nonneg_inv ?g s (solve_init cfg s)" .
  with BMSSP_caseA_aux [OF wf s cyc, of fuel] lev
  have "\<And>q. BMSSP fuel cfg (max_level cfg) PInf [s] (solve_init cfg s) \<noteq> Some (Inr q)" by blast
  with res show False by (auto simp: solve_def split: option.splits sum.splits)
qed

subsection \<open>Unreachable vertices and the source keep no predecessor\<close>

text \<open>
  Claim C7.  On a well-formed graph, with a source below \<open>n\<close> and the top level at least
  1 (as the constructor sets it), whenever \<^verbatim>\<open>solve\<close> returns: the source has no
  predecessor, and every vertex that is not reachable from the source has distance
  infinity and no predecessor.  (On a graph with a closed walk of zero-weight arcs
  through the source, \<^verbatim>\<open>solve\<close> does not return at all.)
\<close>

theorem solve_unreachable_and_source:
  "wf_graph (graph cfg) \<Longrightarrow> s < g_n (graph cfg) \<Longrightarrow> 0 < max_level cfg \<Longrightarrow>
   solve fuel cfg s = Some (Inr r) \<Longrightarrow>
     predecessors r ! s = None \<and>
     (\<forall>i<g_n (graph cfg). \<not> reachable (graph cfg) s i \<longrightarrow>
        distances r ! i = PInf \<and> predecessors r ! i = None)"
proof -
  assume wf: "wf_graph (graph cfg)" and s: "s < g_n (graph cfg)" and lev: "0 < max_level cfg"
    and res: "solve fuel cfg s = Some (Inr r)"
  let ?g = "graph cfg"
  let ?n = "g_n ?g"
  let ?X = "{v. reachable ?g s v}"
  have cl: "closed_under_arcs ?g ?X" by (rule closed_reachable [OF wf s])
  have X: "\<forall>u\<in>?X. u < ?n" using reachable_less [OF wf s] by simp
  have sX: "s \<in> ?X" by simp
  from solve_no_return_on_zero_cycle [OF wf s lev] res have acyc: "\<not> (zero_arc ?g)\<^sup>+\<^sup>+ s s"
    by blast
  from solve_steps [OF cl sX res] obtain st' where
    steps: "relax_steps ?g ?X (init_arrays ?n s) st'"
    and r: "distances r = d_hat st'" "predecessors r = pred st'" by blast
  from steps untouched_init [OF sX] have "untouched ?n ?X st'"
    by (rule relax_steps_induct) (rule untouched_step [OF cl])
  moreover from steps zero_inv_init [OF s] have "zero_inv ?g s st'"
    by (rule relax_steps_induct) (rule zero_inv_step [OF wf s X acyc])
  ultimately show ?thesis using r by (simp add: untouched_def zero_inv_def)
qed

lemma disconnected_solve: "solve 10 disconnected_solver 0 = Some (Inr disconnected_result)"
  unfolding disconnected_solver_def disconnected_result_def by code_simp

lemma disconnected_reachable:
  "reachable (graph disconnected_solver) 0 v \<Longrightarrow> v = 0 \<or> v = 1"
  unfolding reachable_def
proof (induction rule: rtranclp_induct)
  case base
  then show ?case by simp
next
  case (step y z)
  from step.IH step.hyps(2) show ?case
    by (auto simp: arc_def disconnected_solver_def)
qed

theorem solve_unreachable_and_source_witness:
  "wf_graph (graph disconnected_solver) \<and> 0 < g_n (graph disconnected_solver) \<and>
   0 < max_level disconnected_solver \<and>
   solve 10 disconnected_solver 0 = Some (Inr disconnected_result) \<and>
   predecessors disconnected_result ! 0 = None \<and>
   \<not> reachable (graph disconnected_solver) 0 2 \<and>
   distances disconnected_result ! 2 = PInf \<and> predecessors disconnected_result ! 2 = None \<and>
   \<not> reachable (graph disconnected_solver) 0 3 \<and>
   distances disconnected_result ! 3 = PInf \<and> predecessors disconnected_result ! 3 = None"
proof -
  have h: "wf_graph (graph disconnected_solver)" "0 < g_n (graph disconnected_solver)"
    "0 < max_level disconnected_solver"
    by (simp_all add: wf_graph_def disconnected_solver_def)
  have n2: "\<not> reachable (graph disconnected_solver) 0 2" and n3: "\<not> reachable (graph disconnected_solver) 0 3"
    using disconnected_reachable by fastforce+
  from solve_unreachable_and_source [OF h disconnected_solve] h disconnected_solve n2 n3
  show ?thesis by (simp add: disconnected_solver_def)
qed

subsection \<open>The distance array over whole calls\<close>

text \<open>
  Because every change is a relaxation step, no estimate is larger after a call of
  \<^verbatim>\<open>BMSSP\<close> that returns, or in the result of \<^verbatim>\<open>solve\<close>, than it was before.
\<close>

lemma closed_under_arcs_UNIV: "closed_under_arcs g UNIV"
  by (simp add: closed_under_arcs_def)

lemma relax_step_le:
  assumes "relax_step g X a b"
  shows "length (d_hat b) = length (d_hat a) \<and> (\<forall>i<length (d_hat a). d_hat b ! i \<le> d_hat a ! i)"
  using assms
proof cases
  case (rs_relax u e)
  have "(d_hat a)[fst e := addw (d_hat a ! u) (snd e)] ! i \<le> d_hat a ! i"
    if "i < length (d_hat a)" for i
    using that rs_relax(4) by (cases "i = fst e") simp_all
  then show ?thesis unfolding rs_relax(1) by simp
next
  case (rs_count c)
  then show ?thesis by simp
next
  case (rs_complete c)
  then show ?thesis by simp
qed

lemma relax_steps_le:
  assumes "relax_steps g X a b"
  shows "length (d_hat b) = length (d_hat a) \<and> (\<forall>i<length (d_hat a). d_hat b ! i \<le> d_hat a ! i)"
  using assms
proof (rule relax_steps_induct)
  show "length (d_hat a) = length (d_hat a) \<and> (\<forall>i<length (d_hat a). d_hat a ! i \<le> d_hat a ! i)"
    by simp
next
  fix x y
  assume "relax_step g X x y"
    and "length (d_hat x) = length (d_hat a) \<and> (\<forall>i<length (d_hat a). d_hat x ! i \<le> d_hat a ! i)"
  with relax_step_le [of g X x y]
  show "length (d_hat y) = length (d_hat a) \<and> (\<forall>i<length (d_hat a). d_hat y ! i \<le> d_hat a ! i)"
    by (metis order_trans)
qed

lemma BMSSP_d_hat_non_increasing:
  assumes "BMSSP fuel cfg level B S st = Some (Inr (r, st'))" and "i < length (d_hat st)"
  shows "d_hat st' ! i \<le> d_hat st ! i"
proof -
  have "relax_steps (graph cfg) UNIV st st'"
    by (rule BMSSP_steps [OF closed_under_arcs_UNIV _ assms(1)]) simp
  from relax_steps_le [OF this] assms(2) show ?thesis by simp
qed

lemma solve_distances_non_increasing:
  assumes "solve fuel cfg s = Some (Inr r)" and "i < g_n (graph cfg)"
  shows "distances r ! i \<le> d_hat (init_arrays (g_n (graph cfg)) s) ! i"
proof -
  from solve_steps [OF closed_under_arcs_UNIV _ assms(1)] obtain st' where
    "relax_steps (graph cfg) UNIV (init_arrays (g_n (graph cfg)) s) st'" "distances r = d_hat st'"
    by auto
  with relax_steps_le [of "graph cfg" UNIV "init_arrays (g_n (graph cfg)) s" st'] assms(2)
  show ?thesis by (simp add: init_arrays_def)
qed

subsection \<open>Writes of predecessors\<close>

text \<open>
  All four relaxation bodies write \<open>d_hat[v] = d_hat[u] + w\<close> and then \<open>pred[v] = u\<close>.
  For a non-negative weight and a vertex \<open>v\<close>, right after the two writes
  \<open>d_hat[u] + w = d_hat[v]\<close> holds (also on a self-loop, where the guard forces the
  weight to be 0 or the estimate to be infinite).
\<close>

lemma pred_write_consistent:
  assumes v: "fst e < length (d_hat st)" "fst e < length (pred st)" and w: "0 \<le> snd e"
    and guard: "addw (d_hat st ! u) (snd e) \<le> d_hat st ! fst e"
  shows "addw ((d_hat st)[fst e := addw (d_hat st ! u) (snd e)] ! u) (snd e) =
           (d_hat st)[fst e := addw (d_hat st ! u) (snd e)] ! fst e \<and>
         (pred st)[fst e := Some u] ! fst e = Some u"
proof (cases "u = fst e")
  case False
  with v show ?thesis by simp
next
  case True
  from guard True have "addw (d_hat st ! u) (snd e) \<le> d_hat st ! u" by simp
  with w have "addw (addw (d_hat st ! u) (snd e)) (snd e) = addw (d_hat st ! u) (snd e)"
    by (cases "d_hat st ! u") auto
  with True v show ?thesis by simp
qed

text \<open>
  Over whole runs the equality can only turn into an inequality: an estimate is written
  together with its predecessor, and estimates never grow.  So in every result of
  \<^verbatim>\<open>solve\<close>, a vertex other than the source with a finite distance has a predecessor
  \<open>u\<close> with an arc \<open>u \<rightarrow> i\<close> of weight \<open>w\<close> and \<open>distances[u] + w \<le> distances[i]\<close>.
\<close>

lemma addw_mono: "a \<le> b \<Longrightarrow> addw a w \<le> addw b w"
  by (cases a; cases b) auto

lemma pred_inv_init: "pred_inv g s (init_arrays (g_n g) s)"
proof -
  have "(replicate (g_n g) PInf)[s := Fin 0] ! i = PInf" if "i < g_n g" "i \<noteq> s" for i
    using that by simp
  then have "\<forall>i<g_n g. i = s \<or> (replicate (g_n g) PInf)[s := Fin 0] ! i = PInf" by blast
  then show ?thesis by (simp add: pred_inv_def init_arrays_def)
qed

lemma pred_inv_step:
  assumes wf: "wf_graph g" and X: "\<forall>u\<in>X. u < g_n g"
    and st: "relax_step g X a b" and inv: "pred_inv g s a"
  shows "pred_inv g s b"
  using st
proof cases
  case (rs_relax u e)
  let ?n = "g_n g"
  let ?nd = "addw (d_hat a ! u) (snd e)"
  let ?d = "(d_hat a)[fst e := ?nd]"
  let ?p = "(pred a)[fst e := Some u]"
  from X rs_relax(2) have u: "u < ?n" by auto
  from wf_graph_arc [OF wf u rs_relax(3)] have v: "fst e < ?n" and w: "0 \<le> snd e" by auto
  from inv have len: "length (d_hat a) = ?n" "length (pred a) = ?n" by (auto simp: pred_inv_def)
  have le: "?d ! j \<le> d_hat a ! j" if "j < ?n" for j
    using that rs_relax(4) len by (cases "j = fst e") simp_all
  have "\<exists>u' w'. ?p ! i = Some u' \<and> u' < ?n \<and> (i, w') \<in> set (g_adj g ! u') \<and>
          addw (?d ! u') w' \<le> ?d ! i"
    if i: "i < ?n" "i \<noteq> s" "?d ! i \<noteq> PInf" for i
  proof (cases "i = fst e")
    case True
    have "addw (?d ! u) (snd e) \<le> ?nd" using addw_mono [OF le [OF u]] .
    moreover have "(i, snd e) \<in> set (g_adj g ! u)" using True rs_relax(3) by (cases e) simp
    ultimately have "?p ! i = Some u \<and> u < ?n \<and> (i, snd e) \<in> set (g_adj g ! u) \<and>
          addw (?d ! u) (snd e) \<le> ?d ! i"
      using True u v len by simp
    then show ?thesis by blast
  next
    case False
    with i inv obtain u' w' where h: "pred a ! i = Some u'" "u' < ?n"
      "(i, w') \<in> set (g_adj g ! u')" "addw (d_hat a ! u') w' \<le> d_hat a ! i"
      by (auto simp: pred_inv_def)
    from addw_mono [OF le [OF h(2)]] h(4) have "addw (?d ! u') w' \<le> d_hat a ! i"
      by (rule order_trans)
    with h False show ?thesis by auto
  qed
  with len show ?thesis unfolding rs_relax(1) by (simp add: pred_inv_def)
next
  case (rs_count c)
  with inv show ?thesis by (simp add: pred_inv_def)
next
  case (rs_complete c)
  with inv show ?thesis by (simp add: pred_inv_def)
qed

lemma solve_predecessor_arc:
  assumes wf: "wf_graph (graph cfg)" and s: "s < g_n (graph cfg)"
    and res: "solve fuel cfg s = Some (Inr r)"
    and i: "i < g_n (graph cfg)" "i \<noteq> s" "distances r ! i \<noteq> PInf"
  shows "\<exists>u w. predecessors r ! i = Some u \<and> u < g_n (graph cfg) \<and>
           (i, w) \<in> set (g_adj (graph cfg) ! u) \<and>
           addw (distances r ! u) w \<le> distances r ! i"
proof -
  let ?g = "graph cfg"
  let ?X = "{v. v < g_n ?g}"
  have cl: "closed_under_arcs ?g ?X"
    using wf_graph_arc [OF wf] by (auto simp: closed_under_arcs_def)
  from solve_steps [OF cl _ res] s obtain st' where
    steps: "relax_steps ?g ?X (init_arrays (g_n ?g) s) st'"
    and r: "distances r = d_hat st'" "predecessors r = pred st'" by auto
  from steps pred_inv_init have "pred_inv ?g s st'"
  proof (rule relax_steps_induct)
    fix a b
    assume "relax_step ?g ?X a b" "pred_inv ?g s a"
    with pred_inv_step [OF wf, of ?X a b s] show "pred_inv ?g s b" by simp
  qed
  with i r show ?thesis by (simp add: pred_inv_def)
qed

end
